theory Spec2Isabelle
  imports Complex_Main "HOL-Library.Sublist" "HOL-Library.Multiset"
begin

section \<open>Strings\<close>

text \<open>
  A JavaScript string is modelled as a \<open>string\<close> whose characters are the code units
  below 256 (the Latin-1 range). \<open>String.prototype.trim\<close> removes the white space and
  line terminators of ECMAScript; in this range they are the code units 9 to 13, 32 and 160.
\<close>

definition isWhiteSpace :: "char \<Rightarrow> bool" where
  "isWhiteSpace c = ((of_char c :: nat) \<in> {9, 10, 11, 12, 13, 32, 160})"

definition trim :: "string \<Rightarrow> string" where
  "trim s = rev (dropWhile isWhiteSpace (rev (dropWhile isWhiteSpace s)))"

definition startsWith :: "string \<Rightarrow> string \<Rightarrow> bool" where
  "startsWith s p = prefix p s"

definition endsWith :: "string \<Rightarrow> string \<Rightarrow> bool" where
  "endsWith s p = suffix p s"

text \<open>\<^verbatim>\<open>url.replace(/\/$/, '')\<close>: without the multiline flag \<open>$\<close> matches at the end
  of the input only, so at most the last character is removed.\<close>

definition replace_trailing_slash :: "string \<Rightarrow> string" where
  "replace_trailing_slash s = (if s \<noteq> [] \<and> last s = CHR ''/'' then butlast s else s)"

section \<open>processSitemapUrl\<close>

text \<open>
  \<open>process.argv[2]\<close> is a string or \<open>undefined\<close> (\<open>None\<close>). A falsy input (undefined or
  the empty string) prints the usage and calls \<open>process.exit(1)\<close>: \<open>Inl 1\<close>.
\<close>

definition processSitemapUrl :: "string option \<Rightarrow> int + string" where
  "processSitemapUrl input =
     (case input of
        None \<Rightarrow> Inl 1
      | Some i \<Rightarrow>
          if i = [] then Inl 1
          else
            let url0 = trim i;
                url1 = (if \<not> startsWith url0 ''http://'' \<and> \<not> startsWith url0 ''https://''
                        then ''https://'' @ url0 else url0)
            in if endsWith url1 ''.xml'' then Inr url1
               else Inr (replace_trailing_slash url1 @ ''/sitemap_index.xml''))"

section \<open>Resource tracker\<close>

text \<open>
  A browser handle is an opaque identity. \<open>browserInstances\<close> is a JavaScript \<open>Set\<close>: it
  holds each handle once, in insertion order. The world carries the set and the trace of
  the effects the claims speak about (delays, checker calls, job starts and ends, calls of
  \<open>browser.close()\<close>); console output and spinners are left out. A \<open>Delay\<close> event
  records the call site of \<open>delay(ms)\<close> and the number of milliseconds passed to it.
\<close>

type_synonym handle = nat

datatype delay_site = Jitter | Backoff | RequestPacing | BatchPacing

datatype event =
    Delay delay_site real
  | Check string int
  | Started string
  | Finished string
  | CloseCalled handle

record world =
  browserInstances :: "handle list"
  trace :: "event list"

definition set_add :: "'a list \<Rightarrow> 'a \<Rightarrow> 'a list" where
  "set_add s x = (if x \<in> set s then s else s @ [x])"

definition emit :: "event \<Rightarrow> world \<Rightarrow> world" where
  "emit e w = w\<lparr>trace := trace w @ [e]\<rparr>"

definition delay :: "delay_site \<Rightarrow> real \<Rightarrow> world \<Rightarrow> world" where
  "delay site ms w = emit (Delay site ms) w"

text \<open>
  \<open>close b\<close> is what \<open>await browser.close()\<close> does on handle \<open>b\<close>: \<open>Inr ()\<close> when it
  returns, \<open>Inl msg\<close> when it throws. The loop of cleanup catches and ignores the error.
\<close>

fun close_each :: "(handle \<Rightarrow> string + unit) \<Rightarrow> handle list \<Rightarrow> world \<Rightarrow> world" where
  "close_each close [] w = w"
| "close_each close (b # bs) w =
     (case close b of
        Inr _ \<Rightarrow> close_each close bs (emit (CloseCalled b) w)
      | Inl _ \<Rightarrow> close_each close bs (emit (CloseCalled b) w))"

definition cleanup :: "(handle \<Rightarrow> string + unit) \<Rightarrow> world \<Rightarrow> world" where
  "cleanup close w = (close_each close (browserInstances w) w)\<lparr>browserInstances := []\<rparr>"

section \<open>URL collector\<close>

text \<open>
  A parsed document is the object xml2js returns. The code reads two paths of it:
  \<open>urlset.url\<close> and \<open>sitemapindex.sitemap\<close>, each an array of items when present, and of
  each item the array \<open>loc\<close>. An entry of \<open>loc\<close> is what xml2js makes of one \<open><loc>\<close>
  element: the string of its character content or, when the element carries an attribute,
  a fresh object holding the content and the attributes. \<open>Obj i s\<close> is the object
  allocated as number \<open>i\<close> with content \<open>s\<close>: JavaScript compares strings by content and
  objects by identity, as the equality of this type does.
\<close>

datatype loc_value = Str string | Obj nat string

text \<open>The address an entry stands for: the string, or the content of the element.\<close>

fun address_of :: "loc_value \<Rightarrow> string" where
  "address_of (Str s) = s"
| "address_of (Obj i s) = s"

text \<open>Truthiness: the empty string is falsy, every object is truthy.\<close>

fun truthy :: "loc_value \<Rightarrow> bool" where
  "truthy (Str s) = (s \<noteq> [])"
| "truthy (Obj i s) = True"

record item =
  loc :: "loc_value list option"

record xmldoc =
  urlset_url :: "item list option"
  sitemapindex_sitemap :: "item list option"

text \<open>\<^verbatim>\<open>item.loc && item.loc[0]\<close>: the first location when it is truthy; it is pushed as it
  is, string or object.\<close>

definition loc0 :: "item \<Rightarrow> loc_value option" where
  "loc0 it =
     (case loc it of
        None \<Rightarrow> None
      | Some [] \<Rightarrow> None
      | Some (x # _) \<Rightarrow> if truthy x then Some x else None)"

definition extractUrlsFromSitemap :: "xmldoc \<Rightarrow> loc_value list" where
  "extractUrlsFromSitemap sitemapData =
     (case urlset_url sitemapData of
        None \<Rightarrow> []
      | Some items \<Rightarrow> List.map_filter loc0 items)"

definition getSitemapsFromIndex :: "xmldoc \<Rightarrow> loc_value list" where
  "getSitemapsFromIndex indexData =
     (case sitemapindex_sitemap indexData of
        None \<Rightarrow> []
      | Some items \<Rightarrow> List.map_filter loc0 items)"

text \<open>
  fetchXML: \<open>get a\<close> is the result of \<open>axios.get\<close> followed by the parse at attempt \<open>a\<close>
  (counted from 0): the document, or \<open>None\<close> when either throws. The loop retries while
  \<open>attempt < retries\<close> and returns \<open>null\<close> (\<open>None\<close>) after the last failure; when the loop
  body never runs the function returns \<open>undefined\<close>, which callers treat like \<open>null\<close>.
\<close>

function fetchXML_loop :: "(nat \<Rightarrow> xmldoc option) \<Rightarrow> int \<Rightarrow> int \<Rightarrow> xmldoc option" where
  "fetchXML_loop get retries attempt =
     (if attempt \<le> retries then
        (case get (nat attempt) of
           Some d \<Rightarrow> Some d
         | None \<Rightarrow> if attempt < retries then fetchXML_loop get retries (attempt + 1) else None)
      else None)"
  by pat_completeness auto
termination
  by (relation "measure (\<lambda>(get, retries, attempt). nat (retries + 1 - attempt))") auto

definition fetchXML :: "(nat \<Rightarrow> xmldoc option) \<Rightarrow> xmldoc option" where
  "fetchXML get = fetchXML_loop get 2 0"

text \<open>
  The network: \<open>net k u a\<close> is attempt \<open>a\<close> of the \<open>k\<close>-th call of fetchXML made by
  getAllUrls, for the value \<open>u\<close> handed to \<open>axios.get\<close> (call 0 fetches the root, call \<open>k\<close>
  the \<open>k\<close>-th child). \<open>allUrls\<close> is a \<open>Set\<close>: \<open>set_add\<close> keeps one entry per string
  content and one per object.
\<close>

type_synonym net = "nat \<Rightarrow> loc_value \<Rightarrow> nat \<Rightarrow> xmldoc option"

fun fetch_children :: "net \<Rightarrow> nat \<Rightarrow> loc_value list \<Rightarrow> loc_value list \<Rightarrow> loc_value list" where
  "fetch_children net k [] allUrls = allUrls"
| "fetch_children net k (sitemapUrl # rest) allUrls =
     fetch_children net (Suc k) rest
       (case fetchXML (net k sitemapUrl) of
          Some sitemapData \<Rightarrow> foldl set_add allUrls (extractUrlsFromSitemap sitemapData)
        | None \<Rightarrow> allUrls)"

definition getAllUrls :: "net \<Rightarrow> loc_value \<Rightarrow> loc_value list" where
  "getAllUrls net sitemapUrl =
     (case fetchXML (net 0 sitemapUrl) of
        None \<Rightarrow> []
      | Some indexData \<Rightarrow>
          let sitemaps = getSitemapsFromIndex indexData;
              allUrls = fetch_children net 1 sitemaps []
          in foldl set_add allUrls (extractUrlsFromSitemap indexData))"

section \<open>Configuration\<close>

text \<open>
  Each tunable is read as \<^verbatim>\<open>parseInt(process.env.X) || d\<close> (parseFloat for the
  multiplier). parseInt returns NaN (variable unset or not a number), a finite integer, or
  plus or minus Infinity (a digit string too long for a double, 309 digits or more). NaN
  and 0 are falsy, so they give the default; every other number, a negative or an infinite
  one too, is taken as it is.

  The batch size is modelled with all of these values: \<open>main\<close> only divides by it, and
  with an infinite batch size the number of batches is 0. The other tunables are modelled
  for the values that are NaN (\<open>None\<close>) or finite: a run in which one of them is infinite
  (a retry loop without bound, a limiter without limit, an infinite delay) is outside this
  development, and what is proved of runs is proved for finite tunables. Finite numbers
  are ideal integers and reals: rounding and overflow of the doubles of JavaScript are not
  modelled. The timeouts and the browser arguments are only handed to the checker and are
  left out.
\<close>

datatype 'a parsed = NaN | Num 'a | PlusInfinity | MinusInfinity

record process_env =
  PA11Y_MAX_CONCURRENT :: "int option"
  PA11Y_BATCH_SIZE :: "int parsed"
  PA11Y_REQUEST_DELAY :: "int option"
  PA11Y_MAX_RETRIES :: "int option"
  PA11Y_RETRY_DELAY :: "int option"
  PA11Y_RETRY_MULTIPLIER :: "real option"

record config =
  MAX_CONCURRENT_CHECKS :: int
  BATCH_SIZE :: "int parsed"
  DELAY_BETWEEN_REQUESTS :: int
  MAX_RETRIES :: int
  INITIAL_RETRY_DELAY :: int
  RETRY_MULTIPLIER :: real

definition or_default :: "'a::zero option \<Rightarrow> 'a \<Rightarrow> 'a" where
  "or_default v d = (case v of None \<Rightarrow> d | Some x \<Rightarrow> if x = 0 then d else x)"

text \<open>\<^verbatim>\<open>x || d\<close> on a parsed value: NaN and 0 are falsy, the infinities are not.\<close>

definition parsed_or :: "'a::zero parsed \<Rightarrow> 'a \<Rightarrow> 'a parsed" where
  "parsed_or v d =
     (case v of
        NaN \<Rightarrow> Num d
      | Num x \<Rightarrow> if x = 0 then Num d else Num x
      | PlusInfinity \<Rightarrow> PlusInfinity
      | MinusInfinity \<Rightarrow> MinusInfinity)"

definition CONFIG :: "process_env \<Rightarrow> config" where
  "CONFIG env =
     \<lparr>MAX_CONCURRENT_CHECKS = or_default (PA11Y_MAX_CONCURRENT env) 1,
      BATCH_SIZE = parsed_or (PA11Y_BATCH_SIZE env) 3,
      DELAY_BETWEEN_REQUESTS = or_default (PA11Y_REQUEST_DELAY env) 5000,
      MAX_RETRIES = or_default (PA11Y_MAX_RETRIES env) 3,
      INITIAL_RETRY_DELAY = or_default (PA11Y_RETRY_DELAY env) 5000,
      RETRY_MULTIPLIER = or_default (PA11Y_RETRY_MULTIPLIER env) 2\<rparr>"

definition no_env :: process_env where
  "no_env = \<lparr>PA11Y_MAX_CONCURRENT = None, PA11Y_BATCH_SIZE = NaN, PA11Y_REQUEST_DELAY = None,
     PA11Y_MAX_RETRIES = None, PA11Y_RETRY_DELAY = None, PA11Y_RETRY_MULTIPLIER = None\<rparr>"

section \<open>Error classifier\<close>

text \<open>toLowerCase on the Latin-1 range: A to Z, and the capital letters from 192 to 222
  except the multiplication sign 215.\<close>

definition lower_char :: "char \<Rightarrow> char" where
  "lower_char c =
     (let n = (of_char c :: nat)
      in if (65 \<le> n \<and> n \<le> 90) \<or> (192 \<le> n \<and> n \<le> 222 \<and> n \<noteq> 215)
         then char_of (n + 32) else c)"

definition toLowerCase :: "string \<Rightarrow> string" where
  "toLowerCase s = map lower_char s"

fun includes_str :: "string \<Rightarrow> string \<Rightarrow> bool" where
  "includes_str [] p = (p = [])"
| "includes_str (c # cs) p = (prefix p (c # cs) \<or> includes_str cs p)"

definition retryablePatterns :: "string list" where
  "retryablePatterns =
     [''timeout'', ''timed out'', ''navigation timeout'', ''net::err'', ''econnreset'',
      ''econnrefused'', ''socket hang up'', ''empty response'', ''protocol error'',
      ''target closed'', ''session closed'', ''page crashed'', ''abnormal'',
      ''failed action'', ''wait for'']"

text \<open>The argument is \<open>error.message\<close>: \<open>None\<close> when the error object has no message,
  in which case the empty string is matched.\<close>

definition isRetryableError :: "string option \<Rightarrow> bool" where
  "isRetryableError message =
     (let errorMessage = (case message of None \<Rightarrow> [] | Some m \<Rightarrow> toLowerCase m)
      in list_ex (\<lambda>pattern. includes_str errorMessage pattern) retryablePatterns)"

section \<open>Job runner\<close>

text \<open>
  The checker is external. One call of \<open>pa11y(url, options)\<close> either resolves to a result
  object or rejects. The value it rejects with is an object with an optional message, or
  \<open>null\<close>/\<open>undefined\<close> (reading \<open>.message\<close> of it throws a TypeError in the catch block, so
  the call of runAccessibilityCheck itself rejects). \<open>opened\<close> is the browser session the
  call opened, if any; the code sees it only as the field \<open>browser\<close> of a result.
\<close>

type_synonym issue = string

record results =
  res_issues :: "issue list option"
  res_documentTitle :: "string option"
  browser :: "handle option"

datatype thrown = Thrown "string option" | ThrownNullish

record attempt =
  opened :: "handle option"
  settled :: "thrown + results"

text \<open>\<open>pa11y ext u n\<close> is the call made for address \<open>u\<close> at attempt \<open>n\<close>; \<open>random ext u n\<close>
  is the value of \<open>Math.random()\<close> drawn at that attempt.\<close>

record external =
  pa11y :: "string \<Rightarrow> int \<Rightarrow> attempt"
  random :: "string \<Rightarrow> int \<Rightarrow> real"

datatype status = Success | Error

record outcome =
  url :: string
  issues :: "issue list"
  status :: status
  error :: "string option"
  documentTitle :: string
  attempts :: int
  isRetryable :: "bool option"

definition retryDelay :: "config \<Rightarrow> int \<Rightarrow> real" where
  "retryDelay cfg attemptNumber =
     of_int (INITIAL_RETRY_DELAY cfg) * power_int (RETRY_MULTIPLIER cfg) (attemptNumber - 1)"

text \<open>
  The result is \<open>Inr\<close> the outcome returned, or \<open>Inl\<close> the message of the exception with
  which the returned promise rejects.
\<close>

function runAccessibilityCheck ::
    "config \<Rightarrow> external \<Rightarrow> string \<Rightarrow> int \<Rightarrow> world \<Rightarrow> (string + outcome) \<times> world" where
  "runAccessibilityCheck cfg ext u attemptNumber w =
     (let w1 = (if attemptNumber > 1 then delay Jitter (random ext u attemptNumber * 2000) w
                else w);
          w2 = emit (Check u attemptNumber) w1
      in case settled (pa11y ext u attemptNumber) of
           Inr res \<Rightarrow>
             let w3 = (case browser res of
                         Some b \<Rightarrow> w2\<lparr>browserInstances := set_add (browserInstances w2) b\<rparr>
                       | None \<Rightarrow> w2)
             in (Inr \<lparr>url = u,
                      issues = (case res_issues res of Some found \<Rightarrow> found | None \<Rightarrow> []),
                      status = Success,
                      error = None,
                      documentTitle = (case res_documentTitle res of
                                         None \<Rightarrow> u | Some t \<Rightarrow> if t = [] then u else t),
                      attempts = attemptNumber,
                      isRetryable = None\<rparr>, w3)
         | Inl ThrownNullish \<Rightarrow>
             (Inl ''TypeError: Cannot read properties of undefined'', w2)
         | Inl (Thrown message) \<Rightarrow>
             if isRetryableError message \<and> attemptNumber < MAX_RETRIES cfg
             then runAccessibilityCheck cfg ext u (attemptNumber + 1)
                    (delay Backoff (retryDelay cfg attemptNumber) w2)
             else (Inr \<lparr>url = u,
                        issues = [],
                        status = Error,
                        error = message,
                        documentTitle = u,
                        attempts = attemptNumber,
                        isRetryable = Some (isRetryableError message)\<rparr>, w2))"
  by pat_completeness auto
termination
  by (relation "measure (\<lambda>(cfg, ext, u, attemptNumber, w). nat (MAX_RETRIES cfg - attemptNumber))")
    auto

declare runAccessibilityCheck.simps [simp del]

text \<open>
  The unit of work processUrlBatch hands to the limiter for one address: the check, then
  the pacing delay. When the check rejects, the catch block builds an error outcome with
  \<open>attempts: 1\<close> and no retryable flag.
\<close>

definition job :: "config \<Rightarrow> external \<Rightarrow> string \<Rightarrow> world \<Rightarrow> outcome \<times> world" where
  "job cfg ext u w =
     (case runAccessibilityCheck cfg ext u 1 w of
        (Inr result, w1) \<Rightarrow> (result, delay RequestPacing (of_int (DELAY_BETWEEN_REQUESTS cfg)) w1)
      | (Inl msg, w1) \<Rightarrow>
          (\<lparr>url = u, issues = [], status = Error, error = Some msg, documentTitle = u,
            attempts = 1, isRetryable = None\<rparr>, w1))"

subsection \<open>Sitemap scenarios\<close>

definition doc_index :: xmldoc where
  "doc_index = \<lparr>urlset_url = None,
     sitemapindex_sitemap = Some [\<lparr>loc = Some [Str ''https://site/a.xml'']\<rparr>,
                                  \<lparr>loc = Some [Str ''https://site/b.xml'']\<rparr>]\<rparr>"

definition doc_a :: xmldoc where
  "doc_a = \<lparr>urlset_url = Some [\<lparr>loc = Some [Str ''https://site/1'']\<rparr>,
                              \<lparr>loc = Some [Str ''https://site/2'']\<rparr>,
                              \<lparr>loc = Some [Str ''https://site/3'']\<rparr>],
     sitemapindex_sitemap = None\<rparr>"

definition doc_b :: xmldoc where
  "doc_b = \<lparr>urlset_url = Some [\<lparr>loc = Some [Str ''https://site/3'']\<rparr>,
                              \<lparr>loc = Some [Str ''https://site/4'']\<rparr>,
                              \<lparr>loc = Some [Str ''https://site/5'']\<rparr>],
     sitemapindex_sitemap = None\<rparr>"

text \<open>Every fetch succeeds at once: the index, then its two children.\<close>

definition net_ok :: net where
  "net_ok k u a = (if k = 0 then Some doc_index else if k = 1 then Some doc_a else Some doc_b)"

text \<open>The first child fails at every attempt.\<close>

definition net_child_down :: net where
  "net_child_down k u a = (if k = 0 then Some doc_index else if k = 1 then None else Some doc_b)"

text \<open>The root is fetched and is an index without children.\<close>

definition net_empty_index :: net where
  "net_empty_index k u a = Some \<lparr>urlset_url = None, sitemapindex_sitemap = Some []\<rparr>"

text \<open>Nothing can be fetched.\<close>

definition net_down :: net where
  "net_down k u a = None"

section \<open>Concurrency limiter\<close>

text \<open>
  The class ConcurrencyLimiter: the fields \<open>limit\<close>, \<open>running\<close> and \<open>queue\<close>. A queued
  unit stands for the entry \<open>{fn, resolve, reject}\<close>. \<open>process\<close> runs synchronously up to
  the call \<open>fn()\<close>: it returns the unit it has started, if any, and the new fields. \<open>run\<close>
  pushes the unit and calls \<open>process\<close>; \<open>release\<close> is the \<open>finally\<close> block, which runs
  when the started unit has settled: it decrements \<open>running\<close> and calls \<open>process\<close>.
\<close>

record 'a limiter =
  limit :: int
  running :: int
  queue :: "'a list"

definition new_limiter :: "int \<Rightarrow> 'a limiter" where
  "new_limiter n = \<lparr>limit = n, running = 0, queue = []\<rparr>"

definition process :: "'a limiter \<Rightarrow> 'a option \<times> 'a limiter" where
  "process L =
     (if running L \<ge> limit L \<or> length (queue L) = 0 then (None, L)
      else (case queue L of
              [] \<Rightarrow> (None, L)
            | fn # rest \<Rightarrow> (Some fn, L\<lparr>running := running L + 1, queue := rest\<rparr>)))"

definition run :: "'a \<Rightarrow> 'a limiter \<Rightarrow> 'a option \<times> 'a limiter" where
  "run fn L = process (L\<lparr>queue := queue L @ [fn]\<rparr>)"

definition release :: "'a limiter \<Rightarrow> 'a option \<times> 'a limiter" where
  "release L = process (L\<lparr>running := running L - 1\<rparr>)"

subsection \<open>Executions of the limiter\<close>

text \<open>
  An execution is a sequence of actions on one limiter: a caller submits a unit with
  \<open>run\<close>; the work of a started unit settles (its promise resolves or rejects); the
  \<open>finally\<close> block of a settled unit runs. The state records, next to the limiter, the
  units that are executing (started, not settled), the units that have settled and whose
  \<open>finally\<close> block has not run yet, and the units submitted and started so far, in order.
  A step that is not possible (no such executing or settled unit) is \<open>None\<close>.
\<close>

datatype 'a action = Submit 'a | Settle nat | Release nat

record 'a execution =
  limiter :: "'a limiter"
  executing :: "'a list"
  settling :: "'a list"
  submitted :: "'a list"
  started :: "'a list"

definition remove_nth :: "nat \<Rightarrow> 'a list \<Rightarrow> 'a list" where
  "remove_nth i xs = take i xs @ drop (Suc i) xs"

definition begin_unit :: "'a option \<Rightarrow> 'a execution \<Rightarrow> 'a execution" where
  "begin_unit st s =
     (case st of
        None \<Rightarrow> s
      | Some fn \<Rightarrow> s\<lparr>executing := executing s @ [fn], started := started s @ [fn]\<rparr>)"

definition initial :: "int \<Rightarrow> 'a execution" where
  "initial n = \<lparr>limiter = new_limiter n, executing = [], settling = [], submitted = [],
     started = []\<rparr>"

fun step :: "'a action \<Rightarrow> 'a execution \<Rightarrow> 'a execution option" where
  "step (Submit fn) s =
     (case run fn (limiter s) of
        (st, L) \<Rightarrow> Some (begin_unit st (s\<lparr>limiter := L, submitted := submitted s @ [fn]\<rparr>)))"
| "step (Settle i) s =
     (if i < length (executing s)
      then Some (s\<lparr>executing := remove_nth i (executing s),
                   settling := settling s @ [executing s ! i]\<rparr>)
      else None)"
| "step (Release j) s =
     (if j < length (settling s)
      then (case release (limiter s) of
              (st, L) \<Rightarrow> Some (begin_unit st (s\<lparr>limiter := L,
                                                  settling := remove_nth j (settling s)\<rparr>)))
      else None)"

fun execute :: "'a action list \<Rightarrow> 'a execution \<Rightarrow> 'a execution option" where
  "execute [] s = Some s"
| "execute (a # as) s = (case step a s of None \<Rightarrow> None | Some s' \<Rightarrow> execute as s')"

text \<open>What holds at every point of an execution.\<close>

definition limiter_inv :: "int \<Rightarrow> 'a execution \<Rightarrow> bool" where
  "limiter_inv n s =
     (limit (limiter s) = n
      \<and> running (limiter s) = int (length (executing s) + length (settling s))
      \<and> (queue (limiter s) = [] \<or> n \<le> running (limiter s))
      \<and> running (limiter s) \<le> max 0 n
      \<and> submitted s = started s @ queue (limiter s))"

section \<open>Batch coordinator\<close>

text \<open>
  processUrlBatch submits one unit per address, in order and synchronously (the call of
  \<open>urls.map\<close>), then waits for all of them (\<open>Promise.all\<close>). A unit is the index of the
  address in the batch with the address. The units that the limiter has started run
  concurrently; which of them settles next is decided by the environment: \<open>sched k\<close>
  picks, at the \<open>k\<close>-th completion, among the active units. The effects of a job on the
  world (its checks, delays and registrations) are recorded at the moment it settles; its
  start is recorded when the limiter calls it. When no unit is active and the queue is not
  empty, nothing will ever call \<open>process\<close> again and the promises never resolve: \<open>None\<close>.

  Every job has a checker of its own: \<open>exts g\<close> is what the checker and \<open>Math.random\<close> do
  for the job with the global index \<open>g = startIndex + index + 1\<close>, so two entries of the
  list with the same address need not be checked alike. The argument \<open>totalUrls\<close> only
  feeds the spinner text and is left out.
\<close>

type_synonym unit_of_work = "nat \<times> string"

record batch_state =
  lim :: "unit_of_work limiter"
  active :: "unit_of_work list"
  resolved :: "(unit_of_work \<times> outcome) list"
  wld :: world

definition begin_job :: "unit_of_work option \<Rightarrow> batch_state \<Rightarrow> batch_state" where
  "begin_job st s =
     (case st of
        None \<Rightarrow> s
      | Some v \<Rightarrow> s\<lparr>active := active s @ [v], wld := emit (Started (snd v)) (wld s)\<rparr>)"

definition submit :: "batch_state \<Rightarrow> unit_of_work \<Rightarrow> batch_state" where
  "submit s v = (case run v (lim s) of (st, L) \<Rightarrow> begin_job st (s\<lparr>lim := L\<rparr>))"

definition globalIndex :: "int \<Rightarrow> unit_of_work \<Rightarrow> int" where
  "globalIndex startIndex v = startIndex + int (fst v) + 1"

definition complete ::
    "config \<Rightarrow> (int \<Rightarrow> external) \<Rightarrow> int \<Rightarrow> nat \<Rightarrow> batch_state \<Rightarrow> batch_state" where
  "complete cfg exts startIndex i s =
     (let v = active s ! i;
          (result, w) = job cfg (exts (globalIndex startIndex v)) (snd v) (wld s);
          (st, L) = release (lim s)
      in begin_job st (s\<lparr>lim := L,
                          active := remove_nth i (active s),
                          resolved := resolved s @ [(v, result)],
                          wld := emit (Finished (snd v)) w\<rparr>))"

function drain ::
    "config \<Rightarrow> (int \<Rightarrow> external) \<Rightarrow> int \<Rightarrow> (nat \<Rightarrow> nat) \<Rightarrow> nat \<Rightarrow> batch_state
      \<Rightarrow> batch_state option" where
  "drain cfg exts startIndex sched k s =
     (if active s = [] then (if queue (lim s) = [] then Some s else None)
      else drain cfg exts startIndex sched (Suc k)
             (complete cfg exts startIndex (sched k mod length (active s)) s))"
  by pat_completeness auto
termination
proof (relation "measure (\<lambda>(cfg, exts, startIndex, sched, k, s).
    length (active s) + length (queue (lim s)))")
  show "wf (measure (\<lambda>(cfg, exts, startIndex, sched, k, s).
      length (active s) + length (queue (lim s))))"
    by simp
next
  fix cfg :: config and exts :: "int \<Rightarrow> external" and startIndex :: int
    and sched :: "nat \<Rightarrow> nat" and k :: nat and s :: batch_state
  assume "active s \<noteq> []"
  then have "sched k mod length (active s) < length (active s)"
    by simp
  then have "length (active (complete cfg exts startIndex (sched k mod length (active s)) s))
        + length (queue (lim (complete cfg exts startIndex (sched k mod length (active s)) s)))
      < length (active s) + length (queue (lim s))"
    by (auto simp: complete_def Let_def begin_job_def release_def process_def remove_nth_def
        split: prod.splits list.splits option.splits if_splits)
  then show "((cfg, exts, startIndex, sched, Suc k,
               complete cfg exts startIndex (sched k mod length (active s)) s),
              (cfg, exts, startIndex, sched, k, s))
      \<in> measure (\<lambda>(cfg, exts, startIndex, sched, k, s).
          length (active s) + length (queue (lim s)))"
    by simp
qed

declare drain.simps [simp del]

text \<open>\<open>Promise.all\<close>: the results by index, once every promise has resolved.\<close>

definition promise_all :: "nat \<Rightarrow> (unit_of_work \<times> outcome) list \<Rightarrow> outcome list option" where
  "promise_all n rs = those (map (map_of (map (\<lambda>(v, result). (fst v, result)) rs)) [0..<n])"

definition processUrlBatch ::
    "config \<Rightarrow> (int \<Rightarrow> external) \<Rightarrow> (nat \<Rightarrow> nat) \<Rightarrow> string list \<Rightarrow> int
      \<Rightarrow> unit_of_work limiter \<times> world
      \<Rightarrow> (outcome list \<times> unit_of_work limiter \<times> world) option" where
  "processUrlBatch cfg exts sched urls startIndex state =
     (let s0 = foldl submit \<lparr>lim = fst state, active = [], resolved = [], wld = snd state\<rparr>
                 (enumerate 0 urls)
      in case drain cfg exts startIndex sched 0 s0 of
           None \<Rightarrow> None
         | Some s \<Rightarrow>
             (case promise_all (length urls) (resolved s) of
                None \<Rightarrow> None
              | Some batchResults \<Rightarrow> Some (batchResults, lim s, wld s)))"

text \<open>\<open>Array.prototype.slice(start, end)\<close>: a negative index counts from the end, and
  both indices are clamped to the array.\<close>

definition slice :: "'a list \<Rightarrow> int \<Rightarrow> int \<Rightarrow> 'a list" where
  "slice xs start fin =
     (let len = int (length xs);
          k = (if start < 0 then max (len + start) 0 else min start len);
          final = (if fin < 0 then max (len + fin) 0 else min fin len)
      in take (nat (final - k)) (drop (nat k) xs))"

text \<open>
  The loop of main over the batches, for a finite batch size \<open>B\<close>. \<open>sched i\<close> is the
  completion order of batch \<open>i\<close>. The state is the list \<open>results\<close>, the limiter (one for
  the whole run) and the world.
\<close>

function batch_loop ::
    "config \<Rightarrow> (int \<Rightarrow> external) \<Rightarrow> (nat \<Rightarrow> nat \<Rightarrow> nat) \<Rightarrow> string list \<Rightarrow> int \<Rightarrow> int \<Rightarrow> int
      \<Rightarrow> outcome list \<times> unit_of_work limiter \<times> world
      \<Rightarrow> (outcome list \<times> unit_of_work limiter \<times> world) option" where
  "batch_loop cfg exts sched urls B batches i state =
     (if i < batches then
        (let startIdx = i * B;
             endIdx = min (startIdx + B) (int (length urls));
             batch = slice urls startIdx endIdx
         in case processUrlBatch cfg exts (sched (nat i)) batch startIdx (snd state) of
              None \<Rightarrow> None
            | Some (batchResults, L, w) \<Rightarrow>
                batch_loop cfg exts sched urls B batches (i + 1)
                  (fst state @ batchResults, L,
                   if i < batches - 1
                   then delay BatchPacing (of_int (DELAY_BETWEEN_REQUESTS cfg * 2)) w
                   else w))
      else Some state)"
  by pat_completeness auto
termination
  by (relation "measure (\<lambda>(cfg, exts, sched, urls, B, batches, i, state). nat (batches - i))")
    auto

declare batch_loop.simps [simp del]

text \<open>
  \<^verbatim>\<open>Math.ceil(urls.length / CONFIG.BATCH_SIZE)\<close> batches. For an infinite batch size the
  quotient is 0 (plus or minus), and the loop body never runs; the same holds for NaN,
  with which no comparison is true. CONFIG never holds NaN or 0; for a configuration built
  otherwise, the division of a positive length by 0 is Infinity and the loop does not end
  (\<open>None\<close>), and 0/0 is NaN and the loop does not run.
\<close>

definition run_batches ::
    "config \<Rightarrow> (int \<Rightarrow> external) \<Rightarrow> (nat \<Rightarrow> nat \<Rightarrow> nat) \<Rightarrow> string list \<Rightarrow> world
      \<Rightarrow> (outcome list \<times> unit_of_work limiter \<times> world) option" where
  "run_batches cfg exts sched urls w =
     (case BATCH_SIZE cfg of
        Num B \<Rightarrow>
          if B = 0
          then (if urls = [] then Some ([], new_limiter (MAX_CONCURRENT_CHECKS cfg), w) else None)
          else batch_loop cfg exts sched urls B \<lceil>real (length urls) / real_of_int B\<rceil> 0
                 ([], new_limiter (MAX_CONCURRENT_CHECKS cfg), w)
      | NaN \<Rightarrow> Some ([], new_limiter (MAX_CONCURRENT_CHECKS cfg), w)
      | PlusInfinity \<Rightarrow> Some ([], new_limiter (MAX_CONCURRENT_CHECKS cfg), w)
      | MinusInfinity \<Rightarrow> Some ([], new_limiter (MAX_CONCURRENT_CHECKS cfg), w))"

text \<open>
  main: the sitemap is probed with a HEAD request (\<open>head_ok\<close>), the entries are
  collected, the batches run, and cleanup closes the tracked browsers. The process exits
  with status 1 when the probe fails or no entry is found, and with status 0 at the end
  (\<open>Completed\<close>, with the outcome list handed to the report); \<open>Hangs\<close> is a run whose
  promises never resolve. The coordinator and the runner never look into an entry of the
  list: they hand it to the spinner text, to the checker and into the outcome. Each entry
  is represented there by its address, and what the checker does with the entry of a job,
  a string or an object, is what \<open>exts g\<close> says for that job.
\<close>

datatype run_end = Exit1 | Hangs | Completed "outcome list" world

definition main ::
    "config \<Rightarrow> (int \<Rightarrow> external) \<Rightarrow> net \<Rightarrow> (handle \<Rightarrow> string + unit) \<Rightarrow> (nat \<Rightarrow> nat \<Rightarrow> nat)
      \<Rightarrow> bool \<Rightarrow> string \<Rightarrow> world \<Rightarrow> run_end" where
  "main cfg exts net close sched head_ok sitemapUrl w =
     (if \<not> head_ok then Exit1
      else let urls = getAllUrls net (Str sitemapUrl)
           in if length urls = 0 then Exit1
              else (case run_batches cfg exts sched (map address_of urls) w of
                      None \<Rightarrow> Hangs
                    | Some (results, L, w') \<Rightarrow> Completed results (cleanup close w')))"

subsection \<open>Reading the starts and ends of jobs off a trace\<close>

definition started_of :: "event list \<Rightarrow> string list" where
  "started_of tr = List.map_filter (\<lambda>e. case e of Started u \<Rightarrow> Some u | _ \<Rightarrow> None) tr"

definition finished_of :: "event list \<Rightarrow> string list" where
  "finished_of tr = List.map_filter (\<lambda>e. case e of Finished u \<Rightarrow> Some u | _ \<Rightarrow> None) tr"

definition batch_pacings :: "event list \<Rightarrow> real list" where
  "batch_pacings tr =
     List.map_filter (\<lambda>e. case e of Delay BatchPacing ms \<Rightarrow> Some ms | _ \<Rightarrow> None) tr"

text \<open>The events a job records itself: checker calls and the delays other than the pause
  between batches.\<close>

fun job_event :: "event \<Rightarrow> bool" where
  "job_event (Delay site ms) = (site \<noteq> BatchPacing)"
| "job_event (Check u n) = True"
| "job_event (Started u) = False"
| "job_event (Finished u) = False"
| "job_event (CloseCalled b) = False"

subsection \<open>The batches and the trace of a run, as the specification words them\<close>

text \<open>Consecutive batches of a fixed size, the last one possibly smaller.\<close>

function consecutive_batches :: "nat \<Rightarrow> 'a list \<Rightarrow> 'a list list" where
  "consecutive_batches b xs =
     (if b = 0 \<or> xs = [] then [] else take b xs # consecutive_batches b (drop b xs))"
  by pat_completeness auto
termination
  by (relation "measure (\<lambda>(b, xs). length xs)") auto

declare consecutive_batches.simps [simp del]

text \<open>The traces of the batches, with a pause between consecutive ones and none after
  the last.\<close>

fun paced :: "real \<Rightarrow> event list list \<Rightarrow> event list" where
  "paced p [] = []"
| "paced p [seg] = seg"
| "paced p (seg # next_seg # segs) = seg @ [Delay BatchPacing p] @ paced p (next_seg # segs)"

text \<open>
  What holds of a batch while its units run, \<open>us\<close> being the units submitted so far, \<open>n\<close>
  the limit and \<open>tr0\<close> the trace when the batch began.
\<close>

definition batch_inv :: "unit_of_work list \<Rightarrow> int \<Rightarrow> event list \<Rightarrow> batch_state \<Rightarrow> bool" where
  "batch_inv us n tr0 s =
     (limit (lim s) = n
      \<and> running (lim s) = int (length (active s))
      \<and> (queue (lim s) = [] \<or> n \<le> running (lim s))
      \<and> mset (map fst (resolved s)) + mset (active s) + mset (queue (lim s)) = mset us
      \<and> list_all (\<lambda>(v, result). url result = snd v) (resolved s)
      \<and> (\<exists>tr. trace (wld s) = tr0 @ tr
            \<and> map snd us = started_of tr @ map snd (queue (lim s))
            \<and> finished_of tr = map (snd \<circ> fst) (resolved s)
            \<and> batch_pacings tr = []))"

subsection \<open>Reading a trace\<close>

text \<open>The backoff delays of a trace, in the order in which they were waited.\<close>

definition backoffs :: "event list \<Rightarrow> real list" where
  "backoffs tr = List.map_filter (\<lambda>e. case e of Delay Backoff ms \<Rightarrow> Some ms | _ \<Rightarrow> None) tr"

text \<open>The events of attempt \<open>N\<close> in a run that makes \<open>K\<close> attempts: the jitter from the
  second attempt on, the call of the checker, and the backoff when another attempt follows.\<close>

definition attempt_events :: "config \<Rightarrow> external \<Rightarrow> string \<Rightarrow> int \<Rightarrow> int \<Rightarrow> event list" where
  "attempt_events cfg ext u K N =
     (if 1 < N then [Delay Jitter (random ext u N * 2000)] else []) @ [Check u N]
     @ (if N < K then [Delay Backoff (retryDelay cfg N)] else [])"

subsection \<open>Checker scenarios\<close>

definition world0 :: world where
  "world0 = \<lparr>browserInstances = [], trace = []\<rparr>"

text \<open>Every call opens session 7 and rejects with a navigation timeout.\<close>

definition ext_timeout :: external where
  "ext_timeout = \<lparr>pa11y = (\<lambda>u n. \<lparr>opened = Some 7,
       settled = Inl (Thrown (Some ''Navigation timeout of 90000 ms exceeded''))\<rparr>),
     random = (\<lambda>u n. 1 / 2)\<rparr>"

text \<open>Every call opens session 7 and rejects with an error that matches no pattern.\<close>

definition ext_invalid :: external where
  "ext_invalid = \<lparr>pa11y = (\<lambda>u n. \<lparr>opened = Some 7,
       settled = Inl (Thrown (Some ''invalid selector''))\<rparr>),
     random = (\<lambda>u n. 1 / 2)\<rparr>"

text \<open>Every call opens session 1 and resolves with a result that carries the session.\<close>

definition ext_ok :: external where
  "ext_ok = \<lparr>pa11y = (\<lambda>u n. \<lparr>opened = Some 1,
       settled = Inr \<lparr>res_issues = Some [], res_documentTitle = Some ''Home'',
                      browser = Some 1\<rparr>\<rparr>),
     random = (\<lambda>u n. 1 / 2)\<rparr>"

definition env_negative_retries :: process_env where
  "env_negative_retries = no_env\<lparr>PA11Y_MAX_RETRIES := Some (- 1)\<rparr>"

definition env_negative_limit :: process_env where
  "env_negative_limit = no_env\<lparr>PA11Y_MAX_CONCURRENT := Some (- 1)\<rparr>"

definition env_negative_batch :: process_env where
  "env_negative_batch = no_env\<lparr>PA11Y_BATCH_SIZE := Num (- 3)\<rparr>"

text \<open>A batch size of 400 digits: parseInt returns Infinity.\<close>

definition env_infinite_batch :: process_env where
  "env_infinite_batch = no_env\<lparr>PA11Y_BATCH_SIZE := PlusInfinity\<rparr>"

text \<open>Both children list the same address in a \<open><loc>\<close> element that carries an
  attribute: each parse makes an object of its own.\<close>

definition doc_attr_1 :: xmldoc where
  "doc_attr_1 = \<lparr>urlset_url = Some [\<lparr>loc = Some [Obj 1 ''https://site/1'']\<rparr>],
     sitemapindex_sitemap = None\<rparr>"

definition doc_attr_2 :: xmldoc where
  "doc_attr_2 = \<lparr>urlset_url = Some [\<lparr>loc = Some [Obj 2 ''https://site/1'']\<rparr>],
     sitemapindex_sitemap = None\<rparr>"

definition net_attributes :: net where
  "net_attributes k u a =
     (if k = 0 then Some doc_index else if k = 1 then Some doc_attr_1 else Some doc_attr_2)"

definition seven_urls :: "string list" where
  "seven_urls = [''https://site/1'', ''https://site/2'', ''https://site/3'', ''https://site/4'',
     ''https://site/5'', ''https://site/6'', ''https://site/7'']"

text \<open>Every browser closes; in every batch the first active unit settles first.\<close>

definition close_ok :: "handle \<Rightarrow> string + unit" where
  "close_ok b = Inr ()"

definition first_settles :: "nat \<Rightarrow> nat \<Rightarrow> nat" where
  "first_settles i k = 0"

definition env_negative_delay :: process_env where
  "env_negative_delay = no_env\<lparr>PA11Y_RETRY_DELAY := Some (- 1000)\<rparr>"

section \<open>Properties of processSitemapUrl\<close>

lemma startsWith_replace_trailing_slash:
  assumes "startsWith s p" and "p \<noteq> []" and "last p = CHR ''/''"
  shows "startsWith (replace_trailing_slash s @ CHR ''/'' # t) p"
proof -
  from assms(1) obtain r where s: "s = p @ r"
    by (auto simp: startsWith_def prefix_def)
  show ?thesis
  proof (cases "r = []")
    case True
    with s assms(2,3) have "replace_trailing_slash s @ [CHR ''/''] = p"
      using append_butlast_last_id [of p] by (simp add: replace_trailing_slash_def)
    then have "replace_trailing_slash s @ CHR ''/'' # t = p @ t"
      by (metis append.assoc append_Cons append_Nil)
    then show ?thesis by (simp only: startsWith_def prefixI)
  next
    case False
    with s have "replace_trailing_slash s = p @ replace_trailing_slash r"
      by (simp add: replace_trailing_slash_def butlast_append)
    then show ?thesis by (simp add: startsWith_def)
  qed
qed

text \<open>
  Claim C10. For every non-empty input string, processSitemapUrl returns a URL (it does not
  exit) that begins with \<open>http://\<close> or \<open>https://\<close>. With \<open>u\<close> the trimmed input, prefixed by
  \<open>https://\<close> when it starts with neither protocol: if \<open>u\<close> ends with \<open>.xml\<close> the result
  is \<open>u\<close> unchanged; otherwise the result is \<open>u\<close> without its one trailing \<open>/\<close> (if it has
  one) followed by \<open>/sitemap_index.xml\<close>.
\<close>

theorem processSitemapUrl_shape:
  assumes "input \<noteq> []"
  shows "\<exists>u r. processSitemapUrl (Some input) = Inr r
           \<and> (startsWith r ''http://'' \<or> startsWith r ''https://'')
           \<and> u = (if startsWith (trim input) ''http://'' \<or> startsWith (trim input) ''https://''
                  then trim input else ''https://'' @ trim input)
           \<and> (endsWith u ''.xml'' \<longrightarrow> r = u)
           \<and> (\<not> endsWith u ''.xml'' \<longrightarrow>
                 (\<forall>v. u = v @ ''/'' \<longrightarrow> r = v @ ''/sitemap_index.xml'')
               \<and> (\<not> endsWith u ''/'' \<longrightarrow> r = u @ ''/sitemap_index.xml''))"
proof -
  define u where "u = (if startsWith (trim input) ''http://'' \<or> startsWith (trim input) ''https://''
                       then trim input else ''https://'' @ trim input)"
  define r where "r = (if endsWith u ''.xml'' then u
                       else replace_trailing_slash u @ ''/sitemap_index.xml'')"
  have run: "processSitemapUrl (Some input) = Inr r"
    using assms by (auto simp: processSitemapUrl_def Let_def u_def r_def)
  have proto: "startsWith u ''http://'' \<or> startsWith u ''https://''"
    by (auto simp: u_def startsWith_def)
  have starts: "startsWith r ''http://'' \<or> startsWith r ''https://''"
  proof (cases "endsWith u ''.xml''")
    case True
    with proto show ?thesis by (simp add: r_def)
  next
    case False
    then have r: "r = replace_trailing_slash u @ CHR ''/'' # ''sitemap_index.xml''"
      by (simp add: r_def)
    from proto show ?thesis
    proof
      assume "startsWith u ''http://''"
      then have "startsWith r ''http://''"
        unfolding r by (rule startsWith_replace_trailing_slash) simp_all
      then show ?thesis ..
    next
      assume "startsWith u ''https://''"
      then have "startsWith r ''https://''"
        unfolding r by (rule startsWith_replace_trailing_slash) simp_all
      then show ?thesis ..
    qed
  qed
  have xml: "endsWith u ''.xml'' \<longrightarrow> r = u"
    by (simp add: r_def)
  have slash: "\<forall>v. u = v @ ''/'' \<longrightarrow> replace_trailing_slash u = v"
    by (simp add: replace_trailing_slash_def)
  have noslash: "\<not> endsWith u ''/'' \<longrightarrow> replace_trailing_slash u = u"
    by (cases u rule: rev_cases) (simp_all add: replace_trailing_slash_def endsWith_def suffix_def)
  have other: "\<not> endsWith u ''.xml'' \<longrightarrow>
                 (\<forall>v. u = v @ ''/'' \<longrightarrow> r = v @ ''/sitemap_index.xml'')
               \<and> (\<not> endsWith u ''/'' \<longrightarrow> r = u @ ''/sitemap_index.xml'')"
  proof
    assume "\<not> endsWith u ''.xml''"
    then have "r = replace_trailing_slash u @ ''/sitemap_index.xml''"
      by (simp only: r_def if_False)
    with slash noslash show "(\<forall>v. u = v @ ''/'' \<longrightarrow> r = v @ ''/sitemap_index.xml'')
               \<and> (\<not> endsWith u ''/'' \<longrightarrow> r = u @ ''/sitemap_index.xml'')"
      by metis
  qed
  from run starts u_def xml other show ?thesis
    by blast
qed

theorem processSitemapUrl_shape_witness:
  "''example.com/'' \<noteq> []
   \<and> processSitemapUrl (Some ''example.com/'') = Inr ''https://example.com/sitemap_index.xml''"
proof -
  have ne: "''example.com/'' \<noteq> []" by simp
  have run: "processSitemapUrl (Some ''example.com/'') = Inr ''https://example.com/sitemap_index.xml''"
    by (simp add: processSitemapUrl_def trim_def isWhiteSpace_def startsWith_def endsWith_def
        suffix_to_prefix replace_trailing_slash_def)
  from processSitemapUrl_shape [OF ne] run ne show ?thesis by simp
qed

section \<open>Properties of cleanup\<close>

lemma close_each_browserInstances [simp]:
  "browserInstances (close_each close bs w) = browserInstances w"
  by (induction bs arbitrary: w) (auto simp: emit_def split: sum.splits)

lemma close_each_trace:
  "trace (close_each close bs w) = trace w @ map CloseCalled bs"
  by (induction bs arbitrary: w) (auto simp: emit_def split: sum.splits)

text \<open>
  Claim C5. After cleanup returns, browserInstances is empty, whatever the set held before
  and whichever calls of close throw; close has been called once on every handle of the
  prior set, in order, a throwing handle not stopping the handles after it.
\<close>

theorem cleanup_empties:
  "browserInstances (cleanup close w) = []
   \<and> trace (cleanup close w) = trace w @ map CloseCalled (browserInstances w)"
  by (simp add: cleanup_def close_each_trace)

theorem cleanup_empties_witness:
  "browserInstances (cleanup (\<lambda>b. if b = 2 then Inl ''boom'' else Inr ())
       \<lparr>browserInstances = [1, 2, 3], trace = []\<rparr>) = []
   \<and> trace (cleanup (\<lambda>b. if b = 2 then Inl ''boom'' else Inr ())
       \<lparr>browserInstances = [1, 2, 3], trace = []\<rparr>) = [CloseCalled 1, CloseCalled 2, CloseCalled 3]"
  using cleanup_empties [of "\<lambda>b. if b = 2 then Inl ''boom'' else Inr ()"
      "\<lparr>browserInstances = [1, 2, 3], trace = []\<rparr>"]
  by simp

section \<open>Properties of the URL collector\<close>

lemma set_foldl_set_add: "set (foldl set_add s xs) = set s \<union> set xs"
  by (induction xs arbitrary: s) (auto simp: set_add_def)

lemma distinct_foldl_set_add: "distinct s \<Longrightarrow> distinct (foldl set_add s xs)"
  by (induction xs arbitrary: s) (auto simp: set_add_def)

lemma distinct_fetch_children:
  "distinct s \<Longrightarrow> distinct (fetch_children net k ss s)"
  by (induction ss arbitrary: k s) (auto simp: distinct_foldl_set_add split: option.splits)

lemma distinct_getAllUrls: "distinct (getAllUrls net sitemapUrl)"
  by (simp add: getAllUrls_def Let_def distinct_foldl_set_add distinct_fetch_children
      split: option.splits)

lemma set_fetch_children:
  "set (fetch_children net k ss s) =
     set s \<union> (\<Union>i<length ss. case fetchXML (net (k + i) (ss ! i)) of
                                  None \<Rightarrow> {} | Some d \<Rightarrow> set (extractUrlsFromSitemap d))"
proof (induction ss arbitrary: k s)
  case Nil
  show ?case by simp
next
  case (Cons c cs)
  have split: "{..<Suc (length cs)} = insert 0 (Suc ` {..<length cs})"
    by (auto simp: image_iff less_Suc_eq_0_disj)
  show ?case
    by (simp add: Cons.IH split set_foldl_set_add Un_assoc split: option.splits)
qed

lemma fetchXML_None:
  "fetchXML get = None \<longleftrightarrow> get 0 = None \<and> get 1 = None \<and> get 2 = None"
  by (simp add: fetchXML_def split: option.splits)

lemma getAllUrls_fetched:
  assumes "fetchXML (net 0 sitemapUrl) = Some indexData"
  shows "set (getAllUrls net sitemapUrl) =
           (\<Union>i<length (getSitemapsFromIndex indexData).
               case fetchXML (net (Suc i) (getSitemapsFromIndex indexData ! i)) of
                 None \<Rightarrow> {} | Some d \<Rightarrow> set (extractUrlsFromSitemap d))
           \<union> set (extractUrlsFromSitemap indexData)"
  using assms by (simp add: getAllUrls_def Let_def set_foldl_set_add set_fetch_children)

lemma getAllUrls_two_children:
  assumes root: "fetchXML (net 0 sitemapUrl) = Some indexData"
    and index: "getSitemapsFromIndex indexData = [c1, c2]" "extractUrlsFromSitemap indexData = []"
    and c1: "fetchXML (net 1 c1) = Some d1"
    and c2: "fetchXML (net 2 c2) = Some d2"
  shows "set (getAllUrls net sitemapUrl) =
           set (extractUrlsFromSitemap d1) \<union> set (extractUrlsFromSitemap d2)"
proof -
  have two: "{..<Suc (Suc 0)} = {0, Suc 0}" by auto
  show ?thesis
    using c1 c2
    by (simp add: getAllUrls_fetched [of net sitemapUrl indexData, OF root] index two
        numeral_2_eq_2)
qed

lemma net_ok_fetch:
  "fetchXML (net_ok 0 u) = Some doc_index"
  "fetchXML (net_ok 1 u) = Some doc_a"
  "fetchXML (net_ok 2 u) = Some doc_b"
  by (simp_all add: fetchXML_def net_ok_def)

lemma scenario_docs:
  "getSitemapsFromIndex doc_index = [Str ''https://site/a.xml'', Str ''https://site/b.xml'']"
  "extractUrlsFromSitemap doc_index = []"
  "extractUrlsFromSitemap doc_a =
     [Str ''https://site/1'', Str ''https://site/2'', Str ''https://site/3'']"
  "extractUrlsFromSitemap doc_b =
     [Str ''https://site/3'', Str ''https://site/4'', Str ''https://site/5'']"
  by (simp_all add: getSitemapsFromIndex_def extractUrlsFromSitemap_def doc_index_def doc_a_def
      doc_b_def List.map_filter_simps loc0_def)

text \<open>
  Claim C7 fails on the code. A \<open><loc>\<close> element that carries an attribute is parsed
  into an object; extractUrlsFromSitemap pushes it as it is, and the Set of getAllUrls
  compares objects by identity. Here the index has two children, and each child lists the
  address \<^verbatim>\<open>https://site/1\<close> in such an element: getAllUrls returns two entries, both
  with this address, so the returned sequence holds a URL twice.
\<close>

theorem getAllUrls_duplicate_address:
  "getAllUrls net_attributes (Str ''https://site/sitemap_index.xml'')
     = [Obj 1 ''https://site/1'', Obj 2 ''https://site/1'']
   \<and> map address_of (getAllUrls net_attributes (Str ''https://site/sitemap_index.xml''))
     = [''https://site/1'', ''https://site/1'']
   \<and> \<not> distinct (map address_of
         (getAllUrls net_attributes (Str ''https://site/sitemap_index.xml'')))"
proof -
  have run: "getAllUrls net_attributes (Str ''https://site/sitemap_index.xml'')
     = [Obj 1 ''https://site/1'', Obj 2 ''https://site/1'']"
    by (simp add: getAllUrls_def fetchXML_def net_attributes_def
        extractUrlsFromSitemap_def doc_index_def doc_attr_1_def doc_attr_2_def
        getSitemapsFromIndex_def List.map_filter_simps loc0_def set_add_def)
  show ?thesis
    unfolding run by simp
qed

text \<open>
  What the Set does give: no entry is returned twice as a JavaScript value (a string by
  its content, an object by its identity). So when every entry returned is a string, no
  address is returned twice; and when the root is an index of two children that are both
  fetched, each child lists 3 distinct entries and the two lists share exactly one entry,
  the result has 5 entries.
\<close>

lemma getAllUrls_strings_distinct:
  assumes "\<forall>e \<in> set (getAllUrls net sitemapUrl). \<exists>s. e = Str s"
  shows "distinct (map address_of (getAllUrls net sitemapUrl))"
proof -
  have "inj_on address_of (set (getAllUrls net sitemapUrl))"
  proof (rule inj_onI)
    fix x y
    assume "x \<in> set (getAllUrls net sitemapUrl)" "y \<in> set (getAllUrls net sitemapUrl)"
      and eq: "address_of x = address_of y"
    with assms obtain s t where "x = Str s" "y = Str t"
      by blast
    with eq show "x = y"
      by simp
  qed
  with distinct_getAllUrls [of net sitemapUrl] show ?thesis
    by (simp add: distinct_map)
qed

lemma getAllUrls_two_children_five:
  assumes root: "fetchXML (net 0 sitemapUrl) = Some indexData"
    and idx: "getSitemapsFromIndex indexData = [c1, c2]" "extractUrlsFromSitemap indexData = []"
    and kids: "fetchXML (net 1 c1) = Some d1" "fetchXML (net 2 c2) = Some d2"
    and d1: "distinct (extractUrlsFromSitemap d1)" "length (extractUrlsFromSitemap d1) = 3"
    and d2: "distinct (extractUrlsFromSitemap d2)" "length (extractUrlsFromSitemap d2) = 3"
    and shared: "card (set (extractUrlsFromSitemap d1) \<inter> set (extractUrlsFromSitemap d2)) = 1"
  shows "length (getAllUrls net sitemapUrl) = 5"
proof -
  let ?A = "set (extractUrlsFromSitemap d1)" and ?B = "set (extractUrlsFromSitemap d2)"
  have s: "set (getAllUrls net sitemapUrl) = ?A \<union> ?B"
    by (rule getAllUrls_two_children [of net sitemapUrl indexData c1 c2 d1 d2, OF root idx kids])
  from d1 d2 have cA: "card ?A = 3" and cB: "card ?B = 3"
    by (simp_all add: distinct_card)
  have "card (?A \<union> ?B) + card (?A \<inter> ?B) = card ?A + card ?B"
    using card_Un_Int [of ?A ?B] by simp
  with shared cA cB have "card (?A \<union> ?B) = 5" by simp
  with s have "card (set (getAllUrls net sitemapUrl)) = 5" by simp
  then show ?thesis
    by (simp add: distinct_card [OF distinct_getAllUrls])
qed

text \<open>
  Claim C8, as stated, fails: getAllUrls also returns the empty sequence when the root
  document is fetched but no fetched document lists a URL. Here the root is an index
  without children.
\<close>

theorem getAllUrls_empty_counterexample:
  "\<not> (getAllUrls net_empty_index (Str ''https://site/sitemap_index.xml'') = []
        \<longrightarrow> fetchXML (net_empty_index 0 (Str ''https://site/sitemap_index.xml'')) = None)"
  by (simp add: getAllUrls_def fetchXML_def net_empty_index_def getSitemapsFromIndex_def
      extractUrlsFromSitemap_def List.map_filter_simps)

text \<open>
  Claim C8, amended. When the fetch of the root fails (all three attempts), getAllUrls
  returns the empty sequence. When the root is fetched, a child whose fetch fails adds
  nothing and does not abort the collection: the result holds exactly the URLs extracted
  from the children that were fetched and from the root itself as a direct sitemap (so it
  is empty only when none of these documents lists a URL).
\<close>

theorem getAllUrls_root_and_children:
  "(fetchXML (net 0 sitemapUrl) = None \<longleftrightarrow>
      net 0 sitemapUrl 0 = None \<and> net 0 sitemapUrl 1 = None \<and> net 0 sitemapUrl 2 = None)
   \<and> (fetchXML (net 0 sitemapUrl) = None \<longrightarrow> getAllUrls net sitemapUrl = [])
   \<and> (\<forall>indexData. fetchXML (net 0 sitemapUrl) = Some indexData \<longrightarrow>
        set (getAllUrls net sitemapUrl) =
           (\<Union>i<length (getSitemapsFromIndex indexData).
               case fetchXML (net (Suc i) (getSitemapsFromIndex indexData ! i)) of
                 None \<Rightarrow> {} | Some d \<Rightarrow> set (extractUrlsFromSitemap d))
           \<union> set (extractUrlsFromSitemap indexData))"
proof (intro conjI allI impI)
  show "fetchXML (net 0 sitemapUrl) = None \<longleftrightarrow>
      net 0 sitemapUrl 0 = None \<and> net 0 sitemapUrl 1 = None \<and> net 0 sitemapUrl 2 = None"
    by (rule fetchXML_None)
next
  assume "fetchXML (net 0 sitemapUrl) = None"
  then show "getAllUrls net sitemapUrl = []"
    by (simp add: getAllUrls_def)
next
  fix indexData
  assume "fetchXML (net 0 sitemapUrl) = Some indexData"
  then show "set (getAllUrls net sitemapUrl) =
           (\<Union>i<length (getSitemapsFromIndex indexData).
               case fetchXML (net (Suc i) (getSitemapsFromIndex indexData ! i)) of
                 None \<Rightarrow> {} | Some d \<Rightarrow> set (extractUrlsFromSitemap d))
           \<union> set (extractUrlsFromSitemap indexData)"
    by (rule getAllUrls_fetched)
qed

theorem getAllUrls_root_and_children_witness:
  "fetchXML (net_down 0 (Str ''https://site/sitemap_index.xml'')) = None
   \<and> getAllUrls net_down (Str ''https://site/sitemap_index.xml'') = []
   \<and> fetchXML (net_child_down 0 (Str ''https://site/sitemap_index.xml'')) = Some doc_index
   \<and> fetchXML (net_child_down 1 (Str ''https://site/a.xml'')) = None
   \<and> set (getAllUrls net_child_down (Str ''https://site/sitemap_index.xml''))
       = {Str ''https://site/3'', Str ''https://site/4'', Str ''https://site/5''}"
proof -
  have down: "fetchXML (net_down 0 (Str ''https://site/sitemap_index.xml'')) = None"
    by (simp add: fetchXML_def net_down_def)
  have root: "fetchXML (net_child_down 0 (Str ''https://site/sitemap_index.xml'')) = Some doc_index"
    by (simp add: fetchXML_def net_child_down_def)
  have c1: "fetchXML (net_child_down (Suc 0) u) = None" for u
    by (simp add: fetchXML_def net_child_down_def)
  have c2: "fetchXML (net_child_down (Suc (Suc 0)) u) = Some doc_b" for u
    by (simp add: fetchXML_def net_child_down_def)
  have two: "{..<Suc (Suc 0)} = {0, Suc 0}" by auto
  from getAllUrls_root_and_children [of net_down "Str ''https://site/sitemap_index.xml''"] down
  have empty: "getAllUrls net_down (Str ''https://site/sitemap_index.xml'') = []"
    by blast
  from getAllUrls_root_and_children [of net_child_down "Str ''https://site/sitemap_index.xml''"] root
  have "set (getAllUrls net_child_down (Str ''https://site/sitemap_index.xml'')) =
           (\<Union>i<length (getSitemapsFromIndex doc_index).
               case fetchXML (net_child_down (Suc i) (getSitemapsFromIndex doc_index ! i)) of
                 None \<Rightarrow> {} | Some d \<Rightarrow> set (extractUrlsFromSitemap d))
           \<union> set (extractUrlsFromSitemap doc_index)"
    by blast
  then have "set (getAllUrls net_child_down (Str ''https://site/sitemap_index.xml''))
       = {Str ''https://site/3'', Str ''https://site/4'', Str ''https://site/5''}"
    by (simp add: scenario_docs two c1 c2)
  with down empty root c1 [of "Str ''https://site/a.xml''"] show ?thesis
    by simp
qed

section \<open>Properties of the job runner\<close>

lemma browserInstances_emit [simp]: "browserInstances (emit e w) = browserInstances w"
  by (simp add: emit_def)

lemma browserInstances_delay [simp]: "browserInstances (delay site ms w) = browserInstances w"
  by (simp add: delay_def)

lemma run_outcome:
  assumes "runAccessibilityCheck cfg ext u n w = (Inr out, w')"
  shows "n \<le> attempts out \<and> (attempts out = n \<or> attempts out \<le> MAX_RETRIES cfg) \<and> url out = u
    \<and> (case settled (pa11y ext u (attempts out)) of
         Inr res \<Rightarrow> status out = Success \<and> isRetryable out = None
       | Inl ThrownNullish \<Rightarrow> False
       | Inl (Thrown m) \<Rightarrow> status out = Error \<and> error out = m
            \<and> isRetryable out = Some (isRetryableError m)
            \<and> (isRetryableError m \<longrightarrow> MAX_RETRIES cfg \<le> attempts out))"
  using assms
proof (induction cfg ext u n w rule: runAccessibilityCheck.induct)
  case (1 cfg ext u n w)
  show ?case
  proof (cases "settled (pa11y ext u n)")
    case (Inr res)
    with "1.prems" show ?thesis
      by (subst (asm) runAccessibilityCheck.simps) (auto simp: Let_def)
  next
    case (Inl t)
    show ?thesis
    proof (cases t)
      case ThrownNullish
      with Inl "1.prems" show ?thesis
        by (subst (asm) runAccessibilityCheck.simps) (auto simp: Let_def)
    next
      case (Thrown m)
      show ?thesis
      proof (cases "isRetryableError m \<and> n < MAX_RETRIES cfg")
        case True
        with Inl Thrown "1.prems" have
          "runAccessibilityCheck cfg ext u (n + 1)
             (delay Backoff (retryDelay cfg n)
                (emit (Check u n) (if 1 < n then delay Jitter (random ext u n * 2000) w else w)))
           = (Inr out, w')"
          by (subst (asm) runAccessibilityCheck.simps) (simp add: Let_def)
        from "1.IH" [OF refl refl Inl Thrown True this] True show ?thesis
          by (auto split: sum.splits thrown.splits)
      next
        case False
        with Inl Thrown "1.prems" show ?thesis
          by (subst (asm) runAccessibilityCheck.simps) (auto simp: Let_def)
      qed
    qed
  qed
qed

lemma run_trace:
  assumes "runAccessibilityCheck cfg ext u n w = (r, w')"
  shows "\<exists>K\<ge>n. trace w' = trace w @ concat (map (attempt_events cfg ext u K) [n..K])
     \<and> (case r of Inr out \<Rightarrow> attempts out = K | Inl _ \<Rightarrow> settled (pa11y ext u K) = Inl ThrownNullish)
     \<and> \<not> (K < MAX_RETRIES cfg \<and> (\<exists>m. settled (pa11y ext u K) = Inl (Thrown m) \<and> isRetryableError m))"
  using assms
proof (induction cfg ext u n w rule: runAccessibilityCheck.induct)
  case (1 cfg ext u n w)
  let ?w2 = "emit (Check u n) (if 1 < n then delay Jitter (random ext u n * 2000) w else w)"
  have here: "trace ?w2 = trace w @ attempt_events cfg ext u n n"
    by (simp add: attempt_events_def emit_def delay_def)
  have single: "[n..n] = [n]" by simp
  show ?case
  proof (cases "settled (pa11y ext u n)")
    case (Inr res)
    with "1.prems" have "trace w' = trace ?w2" "r = Inr \<lparr>url = u,
                      issues = (case res_issues res of Some found \<Rightarrow> found | None \<Rightarrow> []),
                      status = Success,
                      error = None,
                      documentTitle = (case res_documentTitle res of
                                         None \<Rightarrow> u | Some t \<Rightarrow> if t = [] then u else t),
                      attempts = n,
                      isRetryable = None\<rparr>"
      by (subst (asm) runAccessibilityCheck.simps; auto simp: Let_def split: option.splits)+
    with here Inr show ?thesis
      by (intro exI [of _ n]) (simp add: single)
  next
    case (Inl t)
    show ?thesis
    proof (cases t)
      case ThrownNullish
      with Inl "1.prems" have "trace w' = trace ?w2" "\<exists>m. r = Inl m"
        by (subst (asm) runAccessibilityCheck.simps; auto simp: Let_def)+
      with here Inl ThrownNullish show ?thesis
        by (intro exI [of _ n]) (auto simp: single)
    next
      case (Thrown m)
      show ?thesis
      proof (cases "isRetryableError m \<and> n < MAX_RETRIES cfg")
        case True
        let ?w3 = "delay Backoff (retryDelay cfg n) ?w2"
        from True Inl Thrown "1.prems" have
          "runAccessibilityCheck cfg ext u (n + 1) ?w3 = (r, w')"
          by (subst (asm) runAccessibilityCheck.simps) (simp add: Let_def)
        from "1.IH" [OF refl refl Inl Thrown True this]
        obtain K where K: "n + 1 \<le> K" "trace w' = trace ?w3 @ concat (map (attempt_events cfg ext u K) [n + 1..K])"
          "case r of Inr out \<Rightarrow> attempts out = K | Inl _ \<Rightarrow> settled (pa11y ext u K) = Inl ThrownNullish"
          "\<not> (K < MAX_RETRIES cfg \<and> (\<exists>m. settled (pa11y ext u K) = Inl (Thrown m) \<and> isRetryableError m))"
          by blast
        from K(1) have "trace ?w3 = trace w @ attempt_events cfg ext u K n"
          by (simp add: attempt_events_def emit_def delay_def)
        moreover from K(1) have "[n..K] = n # [n + 1..K]"
          by (simp add: upto_rec1)
        ultimately have "trace w' = trace w @ concat (map (attempt_events cfg ext u K) [n..K])"
          using K(2) by simp
        with K show ?thesis
          by (intro exI [of _ K]) simp
      next
        case False
        with Inl Thrown "1.prems" have "trace w' = trace ?w2" "\<exists>out. r = Inr out \<and> attempts out = n"
          by (subst (asm) runAccessibilityCheck.simps; auto simp: Let_def)+
        with here Inl Thrown False show ?thesis
          by (intro exI [of _ n]) (auto simp: single)
      qed
    qed
  qed
qed

lemma retryDelay_formula:
  "1 \<le> N \<Longrightarrow> retryDelay cfg N = of_int (INITIAL_RETRY_DELAY cfg) * RETRY_MULTIPLIER cfg ^ nat (N - 1)"
  by (simp add: retryDelay_def power_int_def)

lemma retryDelay_mono:
  assumes "1 \<le> RETRY_MULTIPLIER cfg" "0 \<le> INITIAL_RETRY_DELAY cfg" "1 \<le> N" "N \<le> M"
  shows "retryDelay cfg N \<le> retryDelay cfg M"
proof -
  from assms have "RETRY_MULTIPLIER cfg ^ nat (N - 1) \<le> RETRY_MULTIPLIER cfg ^ nat (M - 1)"
    by (intro power_increasing) simp_all
  with assms show ?thesis
    by (simp add: retryDelay_formula mult_left_mono)
qed

lemma sorted_map_upto:
  assumes "\<And>x y. i \<le> x \<Longrightarrow> x \<le> y \<Longrightarrow> y \<le> j \<Longrightarrow> f x \<le> f y"
  shows "sorted (map f [i..j])"
proof -
  have "sorted_wrt (\<le>) [i..j]"
    using sorted_upto by simp
  then have "sorted_wrt (\<lambda>x y. f x \<le> f y) [i..j]"
    by (rule sorted_wrt_mono_rel [rotated]) (simp add: assms)
  then show ?thesis
    by (simp add: sorted_map)
qed

lemma backoffs_append: "backoffs (a @ b) = backoffs a @ backoffs b"
  by (simp add: backoffs_def List.map_filter_def)

lemma backoffs_attempt_events:
  "backoffs (attempt_events cfg ext u K N) = (if N < K then [retryDelay cfg N] else [])"
  by (simp add: backoffs_def attempt_events_def List.map_filter_simps)

lemma backoffs_run:
  "backoffs (concat (map (attempt_events cfg ext u K) [n..K])) = map (retryDelay cfg) [n..K - 1]"
proof (induction n K rule: upto.induct)
  case (1 i j)
  show ?case
  proof (cases "i \<le> j")
    case True
    then have l: "[i..j] = i # [i + 1..j]" by (simp add: upto_rec1)
    show ?thesis
    proof (cases "i < j")
      case True
      then have r: "[i..j - 1] = i # [i + 1..j - 1]" by (simp add: upto_rec1)
      from True "1.IH" show ?thesis
        by (simp add: l r backoffs_append backoffs_attempt_events)
    next
      case False
      with \<open>i \<le> j\<close> have "i = j" by simp
      then show ?thesis
        by (simp add: backoffs_append backoffs_attempt_events)
    qed
  next
    case False
    then show ?thesis by (simp add: backoffs_def List.map_filter_simps)
  qed
qed

text \<open>
  Claim C6, amended. A run that starts at attempt 1 makes some number \<open>K \<ge> 1\<close> of
  attempts. Its trace is, for each attempt \<open>N\<close> from 1 to \<open>K\<close>: the jitter (from the second
  attempt on), the call of the checker and, when \<open>N < K\<close>, the backoff delay
  \<open>INITIAL_RETRY_DELAY \<times> RETRY_MULTIPLIER^(N-1)\<close>, waited before attempt \<open>N+1\<close>. The run
  does not stop at a retryable failure while \<open>K < MAX_RETRIES\<close>, so every retryable failure
  at an attempt \<open>N < MAX_RETRIES\<close> is followed by that delay. For a multiplier \<open>\<ge> 1\<close> and a
  non-negative initial delay the backoff delays of the run are non-decreasing.
\<close>

theorem backoff_delays:
  assumes "runAccessibilityCheck cfg ext u 1 w = (r, w')"
  shows "\<exists>K\<ge>1.
      trace w' = trace w @ concat (map (\<lambda>N.
          (if 1 < N then [Delay Jitter (random ext u N * 2000)] else []) @ [Check u N]
          @ (if N < K then [Delay Backoff (of_int (INITIAL_RETRY_DELAY cfg)
                                           * RETRY_MULTIPLIER cfg ^ nat (N - 1))] else [])) [1..K])
    \<and> \<not> (K < MAX_RETRIES cfg
          \<and> (\<exists>m. settled (pa11y ext u K) = Inl (Thrown m) \<and> isRetryableError m))
    \<and> backoffs (drop (length (trace w)) (trace w'))
        = map (\<lambda>N. of_int (INITIAL_RETRY_DELAY cfg) * RETRY_MULTIPLIER cfg ^ nat (N - 1)) [1..K - 1]
    \<and> (1 \<le> RETRY_MULTIPLIER cfg \<and> 0 \<le> INITIAL_RETRY_DELAY cfg
          \<longrightarrow> sorted (backoffs (drop (length (trace w)) (trace w'))))"
proof -
  from run_trace [OF assms] obtain K where K: "1 \<le> K"
    "trace w' = trace w @ concat (map (attempt_events cfg ext u K) [1..K])"
    "\<not> (K < MAX_RETRIES cfg
          \<and> (\<exists>m. settled (pa11y ext u K) = Inl (Thrown m) \<and> isRetryableError m))"
    by blast
  have segs: "map (attempt_events cfg ext u K) [1..K] = map (\<lambda>N.
          (if 1 < N then [Delay Jitter (random ext u N * 2000)] else []) @ [Check u N]
          @ (if N < K then [Delay Backoff (of_int (INITIAL_RETRY_DELAY cfg)
                                           * RETRY_MULTIPLIER cfg ^ nat (N - 1))] else [])) [1..K]"
    by (rule map_cong) (simp_all add: attempt_events_def retryDelay_formula)
  have b: "backoffs (drop (length (trace w)) (trace w')) = map (retryDelay cfg) [1..K - 1]"
    by (simp add: K(2) backoffs_run)
  have f: "map (retryDelay cfg) [1..K - 1]
        = map (\<lambda>N. of_int (INITIAL_RETRY_DELAY cfg) * RETRY_MULTIPLIER cfg ^ nat (N - 1)) [1..K - 1]"
    by (rule map_cong) (simp_all add: retryDelay_formula)
  have s: "sorted (map (retryDelay cfg) [1..K - 1])"
    if "1 \<le> RETRY_MULTIPLIER cfg" "0 \<le> INITIAL_RETRY_DELAY cfg"
    by (rule sorted_map_upto) (rule retryDelay_mono [OF that])
  show ?thesis
    using K(1,3) K(2) [unfolded segs] b [unfolded f] s [folded b]
    by (intro exI [of _ K]) blast
qed

lemma run_browserInstances:
  assumes "runAccessibilityCheck cfg ext u n w = (r, w')"
  shows "browserInstances w' =
           (case r of
              Inl _ \<Rightarrow> browserInstances w
            | Inr out \<Rightarrow>
                (case settled (pa11y ext u (attempts out)) of
                   Inr res \<Rightarrow> (case browser res of
                                 Some b \<Rightarrow> set_add (browserInstances w) b
                               | None \<Rightarrow> browserInstances w)
                 | Inl _ \<Rightarrow> browserInstances w))"
  using assms
proof (induction cfg ext u n w rule: runAccessibilityCheck.induct)
  case (1 cfg ext u n w)
  let ?w2 = "emit (Check u n) (if 1 < n then delay Jitter (random ext u n * 2000) w else w)"
  have here: "browserInstances ?w2 = browserInstances w"
    by simp
  show ?case
  proof (cases "settled (pa11y ext u n)")
    case (Inr res)
    with "1.prems" here show ?thesis
      by (subst (asm) runAccessibilityCheck.simps) (auto simp: Let_def split: option.splits)
  next
    case (Inl t)
    show ?thesis
    proof (cases t)
      case ThrownNullish
      with Inl "1.prems" here show ?thesis
        by (subst (asm) runAccessibilityCheck.simps) (auto simp: Let_def)
    next
      case (Thrown m)
      show ?thesis
      proof (cases "isRetryableError m \<and> n < MAX_RETRIES cfg")
        case True
        let ?w3 = "delay Backoff (retryDelay cfg n) ?w2"
        from True Inl Thrown "1.prems" have
          "runAccessibilityCheck cfg ext u (n + 1) ?w3 = (r, w')"
          by (subst (asm) runAccessibilityCheck.simps) (simp add: Let_def)
        moreover have "browserInstances ?w3 = browserInstances w"
          by simp
        ultimately show ?thesis
          using "1.IH" [OF refl refl Inl Thrown True] by (simp only:)
      next
        case False
        with Inl Thrown "1.prems" here show ?thesis
          by (subst (asm) runAccessibilityCheck.simps) (auto simp: Let_def)
      qed
    qed
  qed
qed

lemma job_cases:
  assumes "job cfg ext u w = (out, w')"
  shows "(\<exists>w1. runAccessibilityCheck cfg ext u 1 w = (Inr out, w1))
       \<or> (\<exists>msg. status out = Error \<and> attempts out = 1 \<and> isRetryable out = None \<and> url out = u
              \<and> runAccessibilityCheck cfg ext u 1 w = (Inl msg, w'))"
  using assms by (auto simp: job_def split: prod.splits sum.splits)

text \<open>
  Claim C2, amended. For every job, the outcome has \<open>attempts \<ge> 1\<close>, and
  \<open>attempts \<le> MAX_RETRIES\<close> when \<open>MAX_RETRIES \<ge> 1\<close>. The status is success only if the
  final attempt (the one numbered \<open>attempts\<close>) resolved. An error outcome has the retryable
  flag false only when the classifier returned false on the final error, and has it true
  only once \<open>attempts\<close> has reached \<open>MAX_RETRIES\<close>.
\<close>

theorem job_attempts:
  assumes "job cfg ext u w = (out, w')"
  shows "1 \<le> attempts out
    \<and> (1 \<le> MAX_RETRIES cfg \<longrightarrow> attempts out \<le> MAX_RETRIES cfg)
    \<and> (status out = Success \<longrightarrow> (\<exists>res. settled (pa11y ext u (attempts out)) = Inr res))
    \<and> (status out = Error \<and> isRetryable out = Some False \<longrightarrow>
          (\<exists>m. settled (pa11y ext u (attempts out)) = Inl (Thrown m) \<and> \<not> isRetryableError m))
    \<and> (status out = Error \<and> isRetryable out = Some True \<longrightarrow>
          MAX_RETRIES cfg \<le> attempts out
          \<and> (\<exists>m. settled (pa11y ext u (attempts out)) = Inl (Thrown m) \<and> isRetryableError m))"
proof -
  from job_cases [OF assms] show ?thesis
  proof
    assume "\<exists>w1. runAccessibilityCheck cfg ext u 1 w = (Inr out, w1)"
    then obtain w1 where "runAccessibilityCheck cfg ext u 1 w = (Inr out, w1)" ..
    from run_outcome [OF this] show ?thesis
      by (auto split: sum.splits thrown.splits)
  next
    assume "\<exists>msg. status out = Error \<and> attempts out = 1 \<and> isRetryable out = None \<and> url out = u
              \<and> runAccessibilityCheck cfg ext u 1 w = (Inl msg, w')"
    then show ?thesis by auto
  qed
qed

lemma retryable_timeout: "isRetryableError (Some ''Navigation timeout of 90000 ms exceeded'')"
  by (simp add: isRetryableError_def toLowerCase_def lower_char_def retryablePatterns_def)

lemma not_retryable_invalid: "\<not> isRetryableError (Some ''invalid selector'')"
  by (simp add: isRetryableError_def toLowerCase_def lower_char_def retryablePatterns_def)

lemma CONFIG_no_env:
  "CONFIG no_env = \<lparr>MAX_CONCURRENT_CHECKS = 1, BATCH_SIZE = Num 3, DELAY_BETWEEN_REQUESTS = 5000,
     MAX_RETRIES = 3, INITIAL_RETRY_DELAY = 5000, RETRY_MULTIPLIER = 2\<rparr>"
  by (simp add: CONFIG_def no_env_def or_default_def parsed_or_def)

lemma CONFIG_negative_retries:
  "CONFIG env_negative_retries = \<lparr>MAX_CONCURRENT_CHECKS = 1, BATCH_SIZE = Num 3,
     DELAY_BETWEEN_REQUESTS = 5000, MAX_RETRIES = - 1, INITIAL_RETRY_DELAY = 5000,
     RETRY_MULTIPLIER = 2\<rparr>"
  by (simp add: CONFIG_def env_negative_retries_def no_env_def or_default_def parsed_or_def)

lemma CONFIG_negative_delay:
  "CONFIG env_negative_delay = \<lparr>MAX_CONCURRENT_CHECKS = 1, BATCH_SIZE = Num 3,
     DELAY_BETWEEN_REQUESTS = 5000, MAX_RETRIES = 3, INITIAL_RETRY_DELAY = - 1000,
     RETRY_MULTIPLIER = 2\<rparr>"
  by (simp add: CONFIG_def env_negative_delay_def no_env_def or_default_def parsed_or_def)

lemma run_timeout:
  "runAccessibilityCheck (CONFIG no_env) ext_timeout ''https://site/1'' 1 world0 =
     (Inr \<lparr>url = ''https://site/1'', issues = [], status = Error,
           error = Some ''Navigation timeout of 90000 ms exceeded'',
           documentTitle = ''https://site/1'', attempts = 3, isRetryable = Some True\<rparr>,
      \<lparr>browserInstances = [],
        trace = [Check ''https://site/1'' 1, Delay Backoff 5000,
                 Delay Jitter 1000, Check ''https://site/1'' 2, Delay Backoff 10000,
                 Delay Jitter 1000, Check ''https://site/1'' 3]\<rparr>)"
  by (simp add: runAccessibilityCheck.simps CONFIG_no_env retryable_timeout ext_timeout_def
      world0_def Let_def emit_def delay_def retryDelay_def power_int_def)

lemma run_timeout_negative_delay:
  "runAccessibilityCheck (CONFIG env_negative_delay) ext_timeout ''https://site/1'' 1 world0 =
     (Inr \<lparr>url = ''https://site/1'', issues = [], status = Error,
           error = Some ''Navigation timeout of 90000 ms exceeded'',
           documentTitle = ''https://site/1'', attempts = 3, isRetryable = Some True\<rparr>,
      \<lparr>browserInstances = [],
        trace = [Check ''https://site/1'' 1, Delay Backoff (- 1000),
                 Delay Jitter 1000, Check ''https://site/1'' 2, Delay Backoff (- 2000),
                 Delay Jitter 1000, Check ''https://site/1'' 3]\<rparr>)"
  by (simp add: runAccessibilityCheck.simps CONFIG_negative_delay retryable_timeout ext_timeout_def
      world0_def Let_def emit_def delay_def retryDelay_def power_int_def)

lemma run_invalid:
  "runAccessibilityCheck (CONFIG no_env) ext_invalid ''https://site/1'' 1 world0 =
     (Inr \<lparr>url = ''https://site/1'', issues = [], status = Error,
           error = Some ''invalid selector'',
           documentTitle = ''https://site/1'', attempts = 1, isRetryable = Some False\<rparr>,
      \<lparr>browserInstances = [], trace = [Check ''https://site/1'' 1]\<rparr>)"
  by (simp add: runAccessibilityCheck.simps CONFIG_no_env not_retryable_invalid ext_invalid_def
      world0_def Let_def emit_def delay_def)

lemma run_ok:
  "runAccessibilityCheck cfg ext_ok ''https://site/1'' 1 world0 =
     (Inr \<lparr>url = ''https://site/1'', issues = [], status = Success, error = None,
           documentTitle = ''Home'', attempts = 1, isRetryable = None\<rparr>,
      \<lparr>browserInstances = [1], trace = [Check ''https://site/1'' 1]\<rparr>)"
  by (simp add: runAccessibilityCheck.simps ext_ok_def world0_def Let_def emit_def set_add_def)

text \<open>
  Claim C2, as stated, fails: a negative \<open>PA11Y_MAX_RETRIES\<close> is taken as it is (only NaN
  and 0 give the default), and the single attempt made is then more than \<open>MAX_RETRIES\<close>.
\<close>

theorem job_attempts_counterexample:
  "\<not> (attempts (fst (job (CONFIG env_negative_retries) ext_ok ''https://site/1'' world0))
        \<le> MAX_RETRIES (CONFIG env_negative_retries))"
  by (simp add: job_def run_ok) (simp add: CONFIG_negative_retries)

text \<open>
  The scenario of a check that always raises a navigation timeout, with the default of 3
  attempts: the outcome is an error after 3 attempts, flagged retryable.
\<close>

theorem job_attempts_witness:
  "1 \<le> MAX_RETRIES (CONFIG no_env)
   \<and> attempts (fst (job (CONFIG no_env) ext_timeout ''https://site/1'' world0)) = 3
   \<and> status (fst (job (CONFIG no_env) ext_timeout ''https://site/1'' world0)) = Error
   \<and> isRetryable (fst (job (CONFIG no_env) ext_timeout ''https://site/1'' world0)) = Some True
   \<and> attempts (fst (job (CONFIG no_env) ext_timeout ''https://site/1'' world0))
       \<le> MAX_RETRIES (CONFIG no_env)"
proof -
  let ?j = "job (CONFIG no_env) ext_timeout ''https://site/1'' world0"
  have j: "?j = (fst ?j, snd ?j)" by simp
  have v: "attempts (fst ?j) = 3" "status (fst ?j) = Error" "isRetryable (fst ?j) = Some True"
    by (simp_all add: job_def run_timeout)
  have m: "1 \<le> MAX_RETRIES (CONFIG no_env)" by (simp add: CONFIG_no_env)
  from job_attempts [OF j] m v show ?thesis by blast
qed

text \<open>
  Claim C4. The code does not do what the claim says. The first attempt opens session 7
  and rejects with an error that is not retried; the catch block has no handle to
  register (the handle is read from the result object of a call that resolved), so the
  error outcome is returned with browserInstances still empty.
\<close>

theorem failed_attempt_not_registered:
  "opened (pa11y ext_invalid ''https://site/1'' 1) = Some 7
   \<and> runAccessibilityCheck (CONFIG no_env) ext_invalid ''https://site/1'' 1 world0 =
       (Inr \<lparr>url = ''https://site/1'', issues = [], status = Error,
             error = Some ''invalid selector'',
             documentTitle = ''https://site/1'', attempts = 1, isRetryable = Some False\<rparr>,
        \<lparr>browserInstances = [], trace = [Check ''https://site/1'' 1]\<rparr>)
   \<and> 7 \<notin> set (browserInstances \<lparr>browserInstances = [], trace = [Check ''https://site/1'' 1]\<rparr>)"
  by (simp add: run_invalid) (simp add: ext_invalid_def)

text \<open>
  What the runner does register: when it returns a success outcome, the handle carried by
  the result object of the final attempt (\<open>results.browser\<close>, if present) is in
  browserInstances, and that is the only registration of the run. A run that returns an
  error outcome leaves browserInstances unchanged.
\<close>

lemma registered_handles:
  assumes "runAccessibilityCheck cfg ext u 1 w = (Inr out, w')"
  shows "(status out = Success \<longrightarrow>
            (\<exists>res. settled (pa11y ext u (attempts out)) = Inr res
               \<and> (\<forall>b. browser res = Some b \<longrightarrow> b \<in> set (browserInstances w'))
               \<and> browserInstances w' = (case browser res of
                                           Some b \<Rightarrow> set_add (browserInstances w) b
                                         | None \<Rightarrow> browserInstances w)))
       \<and> (status out = Error \<longrightarrow> browserInstances w' = browserInstances w)"
proof -
  note o = run_outcome [OF assms] and b = run_browserInstances [OF assms]
  show ?thesis
  proof (cases "settled (pa11y ext u (attempts out))")
    case (Inr res)
    with o b show ?thesis
      by (auto simp: set_add_def split: option.splits)
  next
    case (Inl t)
    with o b show ?thesis
      by (cases t) auto
  qed
qed

text \<open>
  Claim C6, as stated, fails: with the multiplier 2 and a negative \<open>PA11Y_RETRY_DELAY\<close>
  (taken as it is) the delays passed to \<open>delay\<close> are \<open>-1000\<close>, then \<open>-2000\<close>.
\<close>

theorem backoff_delays_counterexample:
  "\<not> (1 \<le> RETRY_MULTIPLIER (CONFIG env_negative_delay)
       \<longrightarrow> sorted (backoffs (trace (snd (runAccessibilityCheck (CONFIG env_negative_delay)
                        ext_timeout ''https://site/1'' 1 world0)))))"
  by (simp add: run_timeout_negative_delay backoffs_def List.map_filter_simps)
    (simp add: CONFIG_negative_delay)

text \<open>The defaults: delays of 5000 and 10000 milliseconds before attempts 2 and 3.\<close>

theorem backoff_delays_witness:
  "1 \<le> RETRY_MULTIPLIER (CONFIG no_env) \<and> 0 \<le> INITIAL_RETRY_DELAY (CONFIG no_env)
   \<and> backoffs (trace (snd (runAccessibilityCheck (CONFIG no_env) ext_timeout
                              ''https://site/1'' 1 world0))) = [5000, 10000]
   \<and> sorted (backoffs (drop (length (trace world0)) (trace (snd (runAccessibilityCheck (CONFIG no_env) ext_timeout
                              ''https://site/1'' 1 world0)))))"
proof -
  let ?r = "runAccessibilityCheck (CONFIG no_env) ext_timeout ''https://site/1'' 1 world0"
  have r: "?r = (fst ?r, snd ?r)" by simp
  have c: "1 \<le> RETRY_MULTIPLIER (CONFIG no_env)" "0 \<le> INITIAL_RETRY_DELAY (CONFIG no_env)"
    by (simp_all add: CONFIG_no_env)
  have v: "backoffs (trace (snd ?r)) = [5000, 10000]"
    by (simp add: run_timeout backoffs_def List.map_filter_simps)
  from backoff_delays [OF r] c v show ?thesis by blast
qed

section \<open>Properties of the concurrency limiter\<close>

lemma limiter_inv_initial: "limiter_inv n (initial n)"
  by (simp add: limiter_inv_def initial_def new_limiter_def)

lemma length_remove_nth: "i < length xs \<Longrightarrow> length (remove_nth i xs) = length xs - 1"
  by (auto simp: remove_nth_def)

lemma limiter_inv_step:
  assumes "limiter_inv n s" and "step a s = Some s'"
  shows "limiter_inv n s'"
proof (cases a)
  case (Submit fn)
  with assms show ?thesis
    by (auto simp: limiter_inv_def run_def process_def begin_unit_def
        split: if_splits list.splits prod.splits)
next
  case (Settle i)
  with assms show ?thesis
    by (auto simp: limiter_inv_def length_remove_nth split: if_splits)
next
  case (Release j)
  with assms show ?thesis
    by (auto simp: limiter_inv_def release_def process_def begin_unit_def length_remove_nth
        split: if_splits list.splits prod.splits)
qed

lemma limiter_inv_execute:
  "limiter_inv n s \<Longrightarrow> execute as s = Some s' \<Longrightarrow> limiter_inv n s'"
proof (induction as arbitrary: s)
  case Nil
  then show ?case by simp
next
  case (Cons a as)
  then show ?case
    by (auto split: option.splits dest: limiter_inv_step)
qed

text \<open>
  Claim C3, amended. In every execution of a limiter created with limit \<open>n\<close>, at every
  point: the number of executing units is at most the counter \<open>running\<close>; the counter
  never exceeds \<open>n\<close> when \<open>n\<close> is not negative (with a negative limit nothing is started
  and the counter stays 0); and the units started so far are, in order, the first of the
  units submitted, the others waiting in the queue in submission order (FIFO start).
\<close>

theorem limiter_bound:
  assumes "execute as (initial n) = Some s"
  shows "int (length (executing s)) \<le> running (limiter s)
       \<and> running (limiter s) \<le> max 0 n
       \<and> (0 \<le> n \<longrightarrow> running (limiter s) \<le> n)
       \<and> limit (limiter s) = n
       \<and> submitted s = started s @ queue (limiter s)"
  using limiter_inv_execute [OF limiter_inv_initial assms]
  by (auto simp: limiter_inv_def)

text \<open>
  Claim C3, as stated, fails: a negative \<open>PA11Y_MAX_CONCURRENT\<close> is taken as it is. After
  one unit is submitted the unit waits in the queue, nothing runs, and the counter, 0,
  exceeds the limit \<open>-1\<close>.
\<close>

theorem limiter_bound_counterexample:
  "execute [Submit ''a''] (initial (MAX_CONCURRENT_CHECKS (CONFIG env_negative_limit)))
     = Some \<lparr>limiter = \<lparr>limit = - 1, running = 0, queue = [''a'']\<rparr>, executing = [],
         settling = [], submitted = [''a''], started = []\<rparr>
   \<and> \<not> running \<lparr>limit = - 1, running = 0, queue = [''a'']\<rparr>
       \<le> limit \<lparr>limit = - 1, running = 0, queue = [''a'']\<rparr>"
  by (simp add: initial_def new_limiter_def CONFIG_def env_negative_limit_def no_env_def
      or_default_def run_def process_def begin_unit_def)

text \<open>Four units on a limiter of 2: the third and fourth wait; the third starts when the
  first is released.\<close>

theorem limiter_bound_witness:
  "execute [Submit ''a'', Submit ''b'', Submit ''c'', Settle 0, Submit ''d'', Release 0, Settle 1]
     (initial 2)
   = Some \<lparr>limiter = \<lparr>limit = 2, running = 2, queue = [''d'']\<rparr>,
       executing = [''b''], settling = [''c''],
       submitted = [''a'', ''b'', ''c'', ''d''], started = [''a'', ''b'', ''c'']\<rparr>
   \<and> (0::int) \<le> 2
   \<and> running \<lparr>limit = 2, running = 2, queue = [''d'']\<rparr> \<le> (2::int)"
proof -
  have e: "execute [Submit ''a'', Submit ''b'', Submit ''c'', Settle 0, Submit ''d'', Release 0, Settle 1]
     (initial 2)
   = Some \<lparr>limiter = \<lparr>limit = 2, running = 2, queue = [''d'']\<rparr>,
       executing = [''b''], settling = [''c''],
       submitted = [''a'', ''b'', ''c'', ''d''], started = [''a'', ''b'', ''c'']\<rparr>"
    by (simp add: initial_def new_limiter_def run_def release_def process_def begin_unit_def
        remove_nth_def)
  from limiter_bound [OF e] e show ?thesis by simp
qed

section \<open>Properties of the batch coordinator\<close>

lemma started_of_append [simp]: "started_of (a @ b) = started_of a @ started_of b"
  by (simp add: started_of_def List.map_filter_def)

lemma finished_of_append [simp]: "finished_of (a @ b) = finished_of a @ finished_of b"
  by (simp add: finished_of_def List.map_filter_def)

lemma batch_pacings_append [simp]: "batch_pacings (a @ b) = batch_pacings a @ batch_pacings b"
  by (simp add: batch_pacings_def List.map_filter_def)

lemma trace_reading_simps [simp]:
  "started_of [] = []" "finished_of [] = []" "batch_pacings [] = []"
  "started_of [Started u] = [u]" "finished_of [Started u] = []" "batch_pacings [Started u] = []"
  "started_of [Finished u] = []" "finished_of [Finished u] = [u]" "batch_pacings [Finished u] = []"
  "started_of [Delay site ms] = []" "finished_of [Delay site ms] = []"
  "batch_pacings [Delay BatchPacing ms] = [ms]"
  by (simp_all add: started_of_def finished_of_def batch_pacings_def List.map_filter_simps)

lemma job_events_silent:
  "list_all job_event tr \<Longrightarrow> started_of tr = [] \<and> finished_of tr = [] \<and> batch_pacings tr = []"
proof (induction tr)
  case Nil
  show ?case by simp
next
  case (Cons e tr)
  then have "job_event e" and rest: "started_of tr = [] \<and> finished_of tr = [] \<and> batch_pacings tr = []"
    by simp_all
  then have "started_of [e] = [] \<and> finished_of [e] = [] \<and> batch_pacings [e] = []"
    by (cases e rule: job_event.cases)
      (auto simp: started_of_def finished_of_def batch_pacings_def List.map_filter_simps
        split: delay_site.splits)
  with rest show ?case
    using started_of_append [of "[e]" tr] finished_of_append [of "[e]" tr]
      batch_pacings_append [of "[e]" tr] by simp
qed

lemma job_event_attempt_events: "list_all job_event (attempt_events cfg ext u K N)"
  by (simp add: attempt_events_def)

lemma job_event_attempts: "list_all job_event (concat (map (attempt_events cfg ext u K) xs))"
  by (induction xs) (simp_all add: job_event_attempt_events)

lemma job_trace:
  assumes "job cfg ext u w = (out, w')"
  shows "\<exists>tr. trace w' = trace w @ tr \<and> list_all job_event tr"
proof (cases "runAccessibilityCheck cfg ext u 1 w")
  case (Pair r w1)
  from run_trace [OF Pair] obtain K where
    t: "trace w1 = trace w @ concat (map (attempt_events cfg ext u K) [1..K])"
    by blast
  show ?thesis
  proof (cases r)
    case (Inl msg)
    with Pair assms have "w' = w1" by (simp add: job_def)
    with t job_event_attempts show ?thesis by blast
  next
    case (Inr result)
    with Pair assms have "trace w' = trace w1 @ [Delay RequestPacing (of_int (DELAY_BETWEEN_REQUESTS cfg))]"
      by (auto simp: job_def delay_def emit_def)
    with t have "trace w' = trace w @ (concat (map (attempt_events cfg ext u K) [1..K])
        @ [Delay RequestPacing (of_int (DELAY_BETWEEN_REQUESTS cfg))])"
      by simp
    moreover have "list_all job_event (concat (map (attempt_events cfg ext u K) [1..K])
        @ [Delay RequestPacing (of_int (DELAY_BETWEEN_REQUESTS cfg))])"
      by (simp add: job_event_attempts)
    ultimately show ?thesis by blast
  qed
qed

lemma job_url:
  assumes "job cfg ext u w = (out, w')"
  shows "url out = u"
  using job_cases [OF assms] run_outcome by blast

lemma mset_remove_nth:
  assumes "i < length xs"
  shows "mset (remove_nth i xs) + {#xs ! i#} = mset xs"
proof -
  have "mset (remove_nth i xs) + {#xs ! i#} = mset (take i xs @ xs ! i # drop (Suc i) xs)"
    by (simp add: remove_nth_def)
  also have "take i xs @ xs ! i # drop (Suc i) xs = xs"
    using assms by (rule id_take_nth_drop [symmetric])
  finally show ?thesis .
qed

lemma batch_inv_submit:
  assumes "batch_inv us n tr0 s"
  shows "batch_inv (us @ [v]) n tr0 (submit s v)"
proof -
  from assms obtain tr where inv:
    "limit (lim s) = n" "running (lim s) = int (length (active s))"
    "queue (lim s) = [] \<or> n \<le> running (lim s)"
    "mset (map fst (resolved s)) + mset (active s) + mset (queue (lim s)) = mset us"
    "list_all (\<lambda>(v, result). url result = snd v) (resolved s)"
    "trace (wld s) = tr0 @ tr" "map snd us = started_of tr @ map snd (queue (lim s))"
    "finished_of tr = map (snd \<circ> fst) (resolved s)" "batch_pacings tr = []"
    unfolding batch_inv_def by blast
  show ?thesis
  proof (cases "running (lim s) < n")
    case True
    with inv(3) have q: "queue (lim s) = []" by simp
    with True inv(1) have sub: "submit s v = s\<lparr>lim := (lim s)\<lparr>running := running (lim s) + 1, queue := []\<rparr>,
        active := active s @ [v], wld := emit (Started (snd v)) (wld s)\<rparr>"
      by (simp add: submit_def run_def process_def begin_job_def)
    have "trace (emit (Started (snd v)) (wld s)) = tr0 @ (tr @ [Started (snd v)])"
      by (simp add: emit_def inv(6))
    moreover have "map snd (us @ [v]) = started_of (tr @ [Started (snd v)]) @ map snd []"
      using inv(7) q by simp
    moreover have "finished_of (tr @ [Started (snd v)]) = map (snd \<circ> fst) (resolved s)"
      using inv(8) by simp
    moreover have "batch_pacings (tr @ [Started (snd v)]) = []"
      using inv(9) by simp
    ultimately have "\<exists>tr'. trace (wld (submit s v)) = tr0 @ tr'
            \<and> map snd (us @ [v]) = started_of tr' @ map snd (queue (lim (submit s v)))
            \<and> finished_of tr' = map (snd \<circ> fst) (resolved (submit s v))
            \<and> batch_pacings tr' = []"
      unfolding sub by (intro exI [of _ "tr @ [Started (snd v)]"]) simp
    moreover from inv(1,2,4,5) q True have
      "limit (lim (submit s v)) = n"
      "running (lim (submit s v)) = int (length (active (submit s v)))"
      "queue (lim (submit s v)) = [] \<or> n \<le> running (lim (submit s v))"
      "mset (map fst (resolved (submit s v))) + mset (active (submit s v))
         + mset (queue (lim (submit s v))) = mset (us @ [v])"
      "list_all (\<lambda>(v, result). url result = snd v) (resolved (submit s v))"
      unfolding sub by simp_all
    ultimately show ?thesis
      unfolding batch_inv_def by blast
  next
    case False
    with inv(1) have sub: "submit s v = s\<lparr>lim := (lim s)\<lparr>queue := queue (lim s) @ [v]\<rparr>\<rparr>"
      by (simp add: submit_def run_def process_def begin_job_def)
    have "\<exists>tr'. trace (wld (submit s v)) = tr0 @ tr'
            \<and> map snd (us @ [v]) = started_of tr' @ map snd (queue (lim (submit s v)))
            \<and> finished_of tr' = map (snd \<circ> fst) (resolved (submit s v))
            \<and> batch_pacings tr' = []"
      unfolding sub using inv(6-9) by (intro exI [of _ tr]) simp
    moreover from inv(1,2,4,5) False have
      "limit (lim (submit s v)) = n"
      "running (lim (submit s v)) = int (length (active (submit s v)))"
      "queue (lim (submit s v)) = [] \<or> n \<le> running (lim (submit s v))"
      "mset (map fst (resolved (submit s v))) + mset (active (submit s v))
         + mset (queue (lim (submit s v))) = mset (us @ [v])"
      "list_all (\<lambda>(v, result). url result = snd v) (resolved (submit s v))"
      unfolding sub by simp_all
    ultimately show ?thesis
      unfolding batch_inv_def by blast
  qed
qed

lemma batch_inv_submit_all:
  "batch_inv us n tr0 s \<Longrightarrow> batch_inv (us @ vs) n tr0 (foldl submit s vs)"
proof (induction vs arbitrary: us s)
  case Nil
  then show ?case by simp
next
  case (Cons v vs)
  from Cons.IH [OF batch_inv_submit [OF Cons.prems, of v]] show ?case by simp
qed

lemma batch_inv_complete:
  assumes "batch_inv us n tr0 s" and i: "i < length (active s)"
  shows "batch_inv us n tr0 (complete cfg exts startIndex i s)"
proof -
  from assms(1) obtain tr where inv:
    "limit (lim s) = n" "running (lim s) = int (length (active s))"
    "queue (lim s) = [] \<or> n \<le> running (lim s)"
    "mset (map fst (resolved s)) + mset (active s) + mset (queue (lim s)) = mset us"
    "list_all (\<lambda>(v, result). url result = snd v) (resolved s)"
    "trace (wld s) = tr0 @ tr" "map snd us = started_of tr @ map snd (queue (lim s))"
    "finished_of tr = map (snd \<circ> fst) (resolved s)" "batch_pacings tr = []"
    unfolding batch_inv_def by blast
  define v where "v = active s ! i"
  obtain result w where j: "job cfg (exts (globalIndex startIndex v)) (snd v) (wld s) = (result, w)"
    by (cases "job cfg (exts (globalIndex startIndex v)) (snd v) (wld s)")
  from job_trace [OF j] obtain jt where jt: "trace w = trace (wld s) @ jt" "list_all job_event jt"
    by blast
  note silent = job_events_silent [OF jt(2)]
  have u: "url result = snd v" by (rule job_url [OF j])
  have len: "length (remove_nth i (active s)) = length (active s) - 1"
    using i by (rule length_remove_nth)
  have ms: "mset (remove_nth i (active s)) + {#v#} = mset (active s)"
    unfolding v_def using i by (rule mset_remove_nth)
  define tr1 where "tr1 = tr @ jt @ [Finished (snd v)]"
  have t1: "trace (emit (Finished (snd v)) w) = tr0 @ tr1"
    by (simp add: emit_def jt(1) inv(6) tr1_def)
  have r1: "started_of tr1 = started_of tr" "finished_of tr1 = map (snd \<circ> fst) (resolved s @ [(v, result)])"
    "batch_pacings tr1 = []"
    using silent inv(8,9) by (simp_all add: tr1_def)
  have m1: "mset (map fst (resolved s @ [(v, result)])) + mset (remove_nth i (active s)) + Q
      = mset (map fst (resolved s)) + (mset (remove_nth i (active s)) + {#v#}) + Q" for Q
    by simp
  have msA: "mset (map fst (resolved s @ [(v, result)])) + mset (remove_nth i (active s))
      + mset (queue (lim s)) = mset us"
    unfolding m1 ms by (rule inv(4))
  have msB: "mset (map fst (resolved s @ [(v, result)])) + mset (remove_nth i (active s) @ [fn])
      + mset rest = mset us" if "queue (lim s) = fn # rest" for fn rest
  proof -
    have "mset (map fst (resolved s @ [(v, result)])) + mset (remove_nth i (active s) @ [fn])
      + mset rest = mset (map fst (resolved s @ [(v, result)])) + mset (remove_nth i (active s))
      + mset (fn # rest)"
      by simp
    with msA that show ?thesis by simp
  qed
  show ?thesis
  proof (cases "running (lim s) - 1 \<ge> n \<or> queue (lim s) = []")
    case True
    with inv(1) have c: "complete cfg exts startIndex i s = s\<lparr>lim := (lim s)\<lparr>running := running (lim s) - 1\<rparr>,
        active := remove_nth i (active s), resolved := resolved s @ [(v, result)],
        wld := emit (Finished (snd v)) w\<rparr>"
      by (auto simp: complete_def Let_def v_def [symmetric] j release_def process_def begin_job_def)
    have "\<exists>tr'. trace (wld (complete cfg exts startIndex i s)) = tr0 @ tr'
            \<and> map snd us = started_of tr' @ map snd (queue (lim (complete cfg exts startIndex i s)))
            \<and> finished_of tr' = map (snd \<circ> fst) (resolved (complete cfg exts startIndex i s))
            \<and> batch_pacings tr' = []"
      unfolding c using t1 r1 inv(7) by (intro exI [of _ tr1]) simp
    moreover from inv(1,2,5) True i len msA u have
      "limit (lim (complete cfg exts startIndex i s)) = n"
      "running (lim (complete cfg exts startIndex i s)) = int (length (active (complete cfg exts startIndex i s)))"
      "queue (lim (complete cfg exts startIndex i s)) = [] \<or> n \<le> running (lim (complete cfg exts startIndex i s))"
      "mset (map fst (resolved (complete cfg exts startIndex i s))) + mset (active (complete cfg exts startIndex i s))
         + mset (queue (lim (complete cfg exts startIndex i s))) = mset us"
      "list_all (\<lambda>(v, result). url result = snd v) (resolved (complete cfg exts startIndex i s))"
      unfolding c by auto
    ultimately show ?thesis
      unfolding batch_inv_def by blast
  next
    case False
    then obtain fn rest where q: "queue (lim s) = fn # rest"
      by (cases "queue (lim s)") auto
    with False inv(1) have c: "complete cfg exts startIndex i s = s\<lparr>lim := (lim s)\<lparr>running := running (lim s), queue := rest\<rparr>,
        active := remove_nth i (active s) @ [fn], resolved := resolved s @ [(v, result)],
        wld := emit (Started (snd fn)) (emit (Finished (snd v)) w)\<rparr>"
      by (auto simp: complete_def Let_def v_def [symmetric] j release_def process_def begin_job_def)
    have "trace (emit (Started (snd fn)) (emit (Finished (snd v)) w)) = tr0 @ (tr1 @ [Started (snd fn)])"
      using t1 by (simp add: emit_def)
    then have "\<exists>tr'. trace (wld (complete cfg exts startIndex i s)) = tr0 @ tr'
            \<and> map snd us = started_of tr' @ map snd (queue (lim (complete cfg exts startIndex i s)))
            \<and> finished_of tr' = map (snd \<circ> fst) (resolved (complete cfg exts startIndex i s))
            \<and> batch_pacings tr' = []"
      unfolding c using r1 inv(7) q by (intro exI [of _ "tr1 @ [Started (snd fn)]"]) simp
    moreover from inv(1,2,3,5) False i len msB [OF q] u q have
      "limit (lim (complete cfg exts startIndex i s)) = n"
      "running (lim (complete cfg exts startIndex i s)) = int (length (active (complete cfg exts startIndex i s)))"
      "queue (lim (complete cfg exts startIndex i s)) = [] \<or> n \<le> running (lim (complete cfg exts startIndex i s))"
      "mset (map fst (resolved (complete cfg exts startIndex i s))) + mset (active (complete cfg exts startIndex i s))
         + mset (queue (lim (complete cfg exts startIndex i s))) = mset us"
      "list_all (\<lambda>(v, result). url result = snd v) (resolved (complete cfg exts startIndex i s))"
      unfolding c by auto
    ultimately show ?thesis
      unfolding batch_inv_def by blast
  qed
qed

lemma drain_completes:
  assumes "batch_inv us n tr0 s" and "0 < n"
  shows "\<exists>s'. drain cfg exts startIndex sched k s = Some s' \<and> batch_inv us n tr0 s'
            \<and> active s' = [] \<and> queue (lim s') = []"
  using assms
proof (induction cfg exts startIndex sched k s rule: drain.induct)
  case (1 cfg exts startIndex sched k s)
  show ?case
  proof (cases "active s = []")
    case True
    with "1.prems" have "queue (lim s) = []"
      by (auto simp: batch_inv_def)
    with True "1.prems" show ?thesis
      by (subst drain.simps) simp
  next
    case False
    then have "sched k mod length (active s) < length (active s)" by simp
    from batch_inv_complete [OF "1.prems"(1) this]
    have "batch_inv us n tr0 (complete cfg exts startIndex (sched k mod length (active s)) s)" .
    from "1.IH" [OF False this "1.prems"(2)] False show ?thesis
      by (subst drain.simps) simp
  qed
qed

lemma those_map_Some:
  "(\<And>x. x \<in> set xs \<Longrightarrow> f x \<noteq> None) \<Longrightarrow> those (map f xs) = Some (map (the \<circ> f) xs)"
  by (induction xs) (auto split: option.splits)

lemma promise_all_complete:
  assumes all: "mset (map fst R) = mset (enumerate 0 urls)"
    and urls: "list_all (\<lambda>(v, result). url result = snd v) R"
  shows "\<exists>rs. promise_all (length urls) R = Some rs \<and> map url rs = urls"
proof -
  define A where "A = map (\<lambda>(v, result). (fst v, result)) R"
  from all have units: "set (map fst R) = set (enumerate 0 urls)"
    by (rule mset_eq_setD)
  have found: "\<exists>r. map_of A i = Some r \<and> url r = urls ! i" if i: "i < length urls" for i
  proof -
    from i have "(i, urls ! i) \<in> set (enumerate 0 urls)"
      by (simp add: in_set_enumerate_eq)
    with units obtain r0 where "((i, urls ! i), r0) \<in> set R"
      by force
    then have "(i, r0) \<in> set A"
      by (force simp: A_def)
    then obtain r where r: "map_of A i = Some r"
      using weak_map_of_SomeI by fastforce
    then have "(i, r) \<in> set A" by (rule map_of_SomeD)
    then obtain v where v: "(v, r) \<in> set R" "fst v = i"
      by (auto simp: A_def)
    from v(1) units have "v \<in> set (enumerate 0 urls)" by force
    with v(2) have "snd v = urls ! i"
      by (auto simp: in_set_enumerate_eq)
    moreover from urls v(1) have "url r = snd v"
      by (auto simp: list_all_iff)
    ultimately show ?thesis using r by simp
  qed
  then have "those (map (map_of A) [0..<length urls]) = Some (map (the \<circ> map_of A) [0..<length urls])"
    by (intro those_map_Some) auto
  moreover have "url (the (map_of A i)) = urls ! i" if "i < length urls" for i
    using found [OF that] by auto
  then have "map url (map (the \<circ> map_of A) [0..<length urls]) = map (\<lambda>i. urls ! i) [0..<length urls]"
    by simp
  then have "map url (map (the \<circ> map_of A) [0..<length urls]) = urls"
    by (simp add: map_nth)
  ultimately show ?thesis
    by (simp add: promise_all_def A_def)
qed

lemma processUrlBatch_completes:
  assumes idle: "limit L = n" "running L = 0" "queue L = []" and pos: "0 < n"
  shows "\<exists>rs L' w' tr. processUrlBatch cfg exts sched urls startIndex (L, w) = Some (rs, L', w')
           \<and> limit L' = n \<and> running L' = 0 \<and> queue L' = []
           \<and> map url rs = urls
           \<and> trace w' = trace w @ tr \<and> started_of tr = urls
           \<and> mset (finished_of tr) = mset urls \<and> batch_pacings tr = []"
proof -
  define s0 where "s0 = \<lparr>lim = L, active = [], resolved = [], wld = w\<rparr>"
  have "batch_inv [] n (trace w) s0"
    using idle by (simp add: batch_inv_def s0_def)
  from batch_inv_submit_all [OF this, of "enumerate 0 urls"]
  have "batch_inv (enumerate 0 urls) n (trace w) (foldl submit s0 (enumerate 0 urls))"
    by simp
  from drain_completes [OF this pos, of cfg exts startIndex sched 0]
  obtain s where s: "drain cfg exts startIndex sched 0 (foldl submit s0 (enumerate 0 urls)) = Some s"
    "batch_inv (enumerate 0 urls) n (trace w) s" "active s = []" "queue (lim s) = []"
    by blast
  from s(2,3,4) obtain tr where inv:
    "limit (lim s) = n" "running (lim s) = 0"
    "mset (map fst (resolved s)) = mset (enumerate 0 urls)"
    "list_all (\<lambda>(v, result). url result = snd v) (resolved s)"
    "trace (wld s) = trace w @ tr" "map snd (enumerate 0 urls) = started_of tr"
    "finished_of tr = map (snd \<circ> fst) (resolved s)" "batch_pacings tr = []"
    unfolding batch_inv_def by auto
  from promise_all_complete [OF inv(3,4)] obtain rs where
    rs: "promise_all (length urls) (resolved s) = Some rs" "map url rs = urls"
    by blast
  have run: "processUrlBatch cfg exts sched urls startIndex (L, w) = Some (rs, lim s, wld s)"
    using s(1) rs(1) by (simp add: processUrlBatch_def s0_def)
  have st: "started_of tr = urls"
    using inv(6) by (simp add: map_snd_enumerate)
  have "mset (finished_of tr) = image_mset snd (mset (map fst (resolved s)))"
    by (simp add: inv(7) multiset.map_comp)
  also have "\<dots> = image_mset snd (mset (enumerate 0 urls))"
    by (simp only: inv(3))
  also have "\<dots> = mset (map snd (enumerate 0 urls))"
    by (simp only: mset_map)
  also have "\<dots> = mset urls"
    by (simp only: map_snd_enumerate)
  finally have fin: "mset (finished_of tr) = mset urls" .
  from run inv(1,2,5,8) s(4) rs(2) st fin show ?thesis
    by blast
qed

lemma less_batches_iff:
  assumes "0 < B"
  shows "i < \<lceil>real n / real_of_int B\<rceil> \<longleftrightarrow> i * B < int n"
proof -
  have "i < \<lceil>real n / real_of_int B\<rceil> \<longleftrightarrow> real_of_int i < real n / real_of_int B"
    by (rule less_ceiling_iff)
  also have "\<dots> \<longleftrightarrow> real_of_int i * real_of_int B < real n"
    using assms by (simp add: pos_less_divide_eq)
  also have "\<dots> \<longleftrightarrow> real_of_int (i * B) < real_of_int (int n)"
    by simp
  also have "\<dots> \<longleftrightarrow> i * B < int n"
    by (rule of_int_less_iff)
  finally show ?thesis .
qed

lemma slice_window:
  assumes "0 \<le> k" "0 < B"
  shows "slice xs k (min (k + B) (int (length xs))) = take (nat B) (drop (nat k) xs)"
proof (cases "k < int (length xs)")
  case True
  with assms have "slice xs k (min (k + B) (int (length xs)))
      = take (nat (min (k + B) (int (length xs)) - k)) (drop (nat k) xs)"
    by (simp add: slice_def Let_def min_def)
  also have "nat (min (k + B) (int (length xs)) - k)
      = min (nat B) (length (drop (nat k) xs))"
    using True assms by (auto simp: min_def)
  also have "take (min (nat B) (length (drop (nat k) xs))) (drop (nat k) xs)
      = take (nat B) (drop (nat k) xs)"
    by (simp add: min_def)
  finally show ?thesis .
next
  case False
  with assms show ?thesis
    by (simp add: slice_def Let_def min_def)
qed

lemma slice_batch:
  assumes "0 \<le> i" "0 < B"
  shows "slice xs (i * B) (min (i * B + B) (int (length xs))) = take (nat B) (drop (nat (i * B)) xs)"
  using assms by (intro slice_window) simp_all

lemma consecutive_batches_Nil [simp]: "consecutive_batches b [] = []"
  by (simp add: consecutive_batches.simps)

lemma consecutive_batches_Cons:
  "0 < b \<Longrightarrow> xs \<noteq> [] \<Longrightarrow>
     consecutive_batches b xs = take b xs # consecutive_batches b (drop b xs)"
  by (subst consecutive_batches.simps) simp

lemma consecutive_batches_empty_iff:
  "0 < b \<Longrightarrow> consecutive_batches b xs = [] \<longleftrightarrow> xs = []"
  by (subst consecutive_batches.simps) simp

lemma paced_Cons:
  "paced p (seg # segs) = seg @ (if segs = [] then [] else Delay BatchPacing p # paced p segs)"
  by (cases segs) simp_all

lemma batch_loop_completes:
  assumes B: "0 < B" and n: "0 < n"
    and i: "0 \<le> i" and idle: "limit L = n" "running L = 0" "queue L = []"
  shows "\<exists>rs L' w' segs.
      batch_loop cfg exts sched urls B \<lceil>real (length urls) / real_of_int B\<rceil> i
          (acc, L, w) = Some (acc @ rs, L', w')
      \<and> limit L' = n \<and> running L' = 0 \<and> queue L' = []
      \<and> map url rs = drop (nat (i * B)) urls
      \<and> trace w' = trace w @ paced (of_int (DELAY_BETWEEN_REQUESTS cfg * 2)) segs
      \<and> map started_of segs
           = consecutive_batches (nat B) (drop (nat (i * B)) urls)
      \<and> map (mset \<circ> finished_of) segs
           = map mset (consecutive_batches (nat B)
                         (drop (nat (i * B)) urls))
      \<and> list_all (\<lambda>seg. batch_pacings seg = []) segs"
  using i idle
proof (induction "nat (\<lceil>real (length urls) / real_of_int B\<rceil> - i)"
    arbitrary: i acc L w)
  case 0
  let ?batches = "\<lceil>real (length urls) / real_of_int B\<rceil>"
  from 0 have stop: "\<not> i < ?batches" by simp
  then have "\<not> i * B < int (length urls)"
    by (simp add: less_batches_iff [OF B])
  moreover have "0 \<le> i * B"
    using "0.prems"(1) B by simp
  ultimately have "length urls \<le> nat (i * B)"
    by linarith
  then have "drop (nat (i * B)) urls = []"
    by simp
  moreover from stop have "batch_loop cfg exts sched urls B ?batches i (acc, L, w) = Some (acc, L, w)"
    by (subst batch_loop.simps) simp
  ultimately show ?case
    using "0.prems" by (intro exI [of _ "[]"] exI [of _ L] exI [of _ w]) simp
next
  case (Suc m)
  let ?B = "B"
  let ?batches = "\<lceil>real (length urls) / real_of_int ?B\<rceil>"
  let ?p = "real_of_int (DELAY_BETWEEN_REQUESTS cfg * 2)"
  let ?rest = "drop (nat (i * ?B)) urls"
  from Suc.hyps(2) have go: "i < ?batches" by simp
  then have lt: "i * ?B < int (length urls)"
    by (simp add: less_batches_iff [OF B])
  have nn: "0 \<le> i * ?B"
    using Suc.prems(1) B by simp
  with lt have "nat (i * ?B) < length urls"
    by linarith
  then have ne: "?rest \<noteq> []" by simp
  have batch: "slice urls (i * ?B) (min (i * ?B + ?B) (int (length urls))) = take (nat ?B) ?rest"
    using Suc.prems(1) B by (rule slice_batch)
  from processUrlBatch_completes [OF Suc.prems(2-4) n, of cfg exts "sched (nat i)" "take (nat ?B) ?rest" "i * ?B" w]
  obtain rs1 L1 w1 tr1 where b1:
    "processUrlBatch cfg exts (sched (nat i)) (take (nat ?B) ?rest) (i * ?B) (L, w) = Some (rs1, L1, w1)"
    "limit L1 = n" "running L1 = 0" "queue L1 = []"
    "map url rs1 = take (nat ?B) ?rest"
    "trace w1 = trace w @ tr1" "started_of tr1 = take (nat ?B) ?rest"
    "mset (finished_of tr1) = mset (take (nat ?B) ?rest)" "batch_pacings tr1 = []"
    by blast
  define w1' where "w1' = (if i < ?batches - 1 then delay BatchPacing ?p w1 else w1)"
  have unfold: "batch_loop cfg exts sched urls B ?batches i (acc, L, w)
      = batch_loop cfg exts sched urls B ?batches (i + 1) (acc @ rs1, L1, w1')"
    using go b1(1) by (subst batch_loop.simps) (simp add: Let_def batch w1'_def)
  have next_i: "0 \<le> i + 1" using Suc.prems(1) by simp
  have m: "m = nat (?batches - (i + 1))" using Suc.hyps(2) by simp
  from Suc.hyps(1) [OF m next_i b1(2-4), of "acc @ rs1" w1']
  obtain rs2 L2 w2 segs2 where b2:
    "batch_loop cfg exts sched urls B ?batches (i + 1) (acc @ rs1, L1, w1')
        = Some ((acc @ rs1) @ rs2, L2, w2)"
    "limit L2 = n" "running L2 = 0" "queue L2 = []"
    "map url rs2 = drop (nat ((i + 1) * ?B)) urls"
    "trace w2 = trace w1' @ paced ?p segs2"
    "map started_of segs2 = consecutive_batches (nat ?B) (drop (nat ((i + 1) * ?B)) urls)"
    "map (mset \<circ> finished_of) segs2
       = map mset (consecutive_batches (nat ?B) (drop (nat ((i + 1) * ?B)) urls))"
    "list_all (\<lambda>seg. batch_pacings seg = []) segs2"
    by blast
  have "nat ((i + 1) * ?B) = nat (i * ?B) + nat ?B"
    using nn B by (simp add: distrib_right nat_add_distrib)
  then have dd: "drop (nat ((i + 1) * ?B)) urls = drop (nat ?B) ?rest"
    by (simp add: add.commute)
  have cb: "consecutive_batches (nat ?B) ?rest
      = take (nat ?B) ?rest # consecutive_batches (nat ?B) (drop (nat ?B) ?rest)"
    using B ne by (intro consecutive_batches_Cons) simp_all
  have more: "i < ?batches - 1 \<longleftrightarrow> segs2 \<noteq> []"
  proof -
    have "i < ?batches - 1 \<longleftrightarrow> i + 1 < ?batches" by auto
    also have "\<dots> \<longleftrightarrow> (i + 1) * ?B < int (length urls)"
      by (rule less_batches_iff [OF B])
    also have "\<dots> \<longleftrightarrow> nat ((i + 1) * ?B) < length urls"
      using nn B by (simp add: distrib_right) linarith
    also have "\<dots> \<longleftrightarrow> drop (nat ((i + 1) * ?B)) urls \<noteq> []"
      by auto
    also have "\<dots> \<longleftrightarrow> consecutive_batches (nat ?B) (drop (nat ((i + 1) * ?B)) urls) \<noteq> []"
      using B by (simp add: consecutive_batches_empty_iff)
    also have "\<dots> \<longleftrightarrow> segs2 \<noteq> []"
      using b2(7) [symmetric] by simp
    finally show ?thesis .
  qed
  have tr: "trace w2 = trace w @ paced ?p (tr1 # segs2)"
    using b2(6) b1(6) more by (simp add: paced_Cons w1'_def delay_def emit_def)
  have urls: "map url (rs1 @ rs2) = ?rest"
    by (simp only: map_append b1(5) b2(5) dd append_take_drop_id)
  have st: "map started_of (tr1 # segs2) = consecutive_batches (nat ?B) ?rest"
    using b1(7) b2(7) by (simp add: cb dd)
  have fi: "map (mset \<circ> finished_of) (tr1 # segs2) = map mset (consecutive_batches (nat ?B) ?rest)"
    using b1(8) b2(8) by (simp add: cb dd)
  have bp: "list_all (\<lambda>seg. batch_pacings seg = []) (tr1 # segs2)"
    using b1(9) b2(9) by simp
  have "batch_loop cfg exts sched urls B ?batches i (acc, L, w) = Some (acc @ (rs1 @ rs2), L2, w2)"
    using unfold b2(1) by simp
  with b2(2-4) urls tr st fi bp show ?case
    by blast
qed

lemma concat_consecutive_batches:
  "0 < b \<Longrightarrow> concat (consecutive_batches b xs) = xs"
proof (induction b xs rule: consecutive_batches.induct)
  case (1 b xs)
  show ?case
  proof (cases "xs = []")
    case True
    then show ?thesis by simp
  next
    case False
    with "1.prems" "1.IH" show ?thesis
      by (simp add: consecutive_batches_Cons)
  qed
qed

lemma sizes_consecutive_batches:
  "0 < b \<Longrightarrow> ys \<in> set (consecutive_batches b xs) \<Longrightarrow> 0 < length ys \<and> length ys \<le> b"
proof (induction b xs rule: consecutive_batches.induct)
  case (1 b xs)
  show ?case
  proof (cases "xs = []")
    case True
    with "1.prems" show ?thesis by simp
  next
    case False
    with "1.prems" "1.IH" show ?thesis
      by (auto simp: consecutive_batches_Cons)
  qed
qed

lemma full_consecutive_batches:
  "0 < b \<Longrightarrow> ys \<in> set (butlast (consecutive_batches b xs)) \<Longrightarrow> length ys = b"
proof (induction b xs rule: consecutive_batches.induct)
  case (1 b xs)
  show ?case
  proof (cases "xs = []")
    case True
    with "1.prems" show ?thesis by simp
  next
    case False
    show ?thesis
    proof (cases "drop b xs = []")
      case True
      with False "1.prems" show ?thesis
        by (simp add: consecutive_batches_Cons)
    next
      case more: False
      then have "consecutive_batches b (drop b xs) \<noteq> []"
        using "1.prems"(1) by (simp add: consecutive_batches_empty_iff)
      with False more "1.prems" "1.IH" show ?thesis
        by (auto simp: consecutive_batches_Cons)
    qed
  qed
qed

lemma count_consecutive_batches:
  "0 < b \<Longrightarrow> length xs \<le> length (consecutive_batches b xs) * b
     \<and> length (consecutive_batches b xs) * b < length xs + b"
proof (induction b xs rule: consecutive_batches.induct)
  case (1 b xs)
  show ?case
  proof (cases "xs = []")
    case True
    with "1.prems" show ?thesis by simp
  next
    case False
    with "1.prems" have cb: "consecutive_batches b xs = take b xs # consecutive_batches b (drop b xs)"
      by (intro consecutive_batches_Cons)
    show ?thesis
    proof (cases "drop b xs = []")
      case True
      with False "1.prems" show ?thesis
        by (simp add: cb)
    next
      case more: False
      from False "1.prems" "1.IH" have
        "length (drop b xs) \<le> length (consecutive_batches b (drop b xs)) * b
         \<and> length (consecutive_batches b (drop b xs)) * b < length (drop b xs) + b"
        by blast
      with more show ?thesis
        by (simp add: cb) linarith
    qed
  qed
qed

lemma length_consecutive_batches:
  assumes "0 < B"
  shows "int (length (consecutive_batches (nat B) xs)) = \<lceil>real (length xs) / real_of_int B\<rceil>"
proof -
  let ?L = "length (consecutive_batches (nat B) xs)"
  from assms have b: "0 < nat B" by simp
  from count_consecutive_batches [OF b, of xs]
  have le: "length xs \<le> ?L * nat B" and lt: "?L * nat B < length xs + nat B"
    by simp_all
  have prod: "int (?L * nat B) = int ?L * B"
    using assms by simp
  from le have "int (length xs) \<le> int (?L * nat B)"
    by (simp only: of_nat_le_iff)
  then have "int (length xs) \<le> int ?L * B"
    by (simp only: prod)
  then have "real_of_int (int (length xs)) \<le> real_of_int (int ?L * B)"
    by (simp only: of_int_le_iff)
  then have "real (length xs) \<le> real_of_int (int ?L) * real_of_int B"
    by simp
  then have upper: "real (length xs) / real_of_int B \<le> real_of_int (int ?L)"
    using assms by (simp add: pos_divide_le_eq)
  from lt have "int (?L * nat B) < int (length xs + nat B)"
    by (simp only: of_nat_less_iff)
  then have "int ?L * B < int (length xs) + B"
    using assms by (simp only: prod)
  then have "(int ?L - 1) * B < int (length xs)"
    by (simp add: left_diff_distrib)
  then have "real_of_int ((int ?L - 1) * B) < real_of_int (int (length xs))"
    by (simp only: of_int_less_iff)
  then have "(real_of_int (int ?L) - 1) * real_of_int B < real (length xs)"
    by simp
  then have lower: "real_of_int (int ?L) - 1 < real (length xs) / real_of_int B"
    using assms by (simp add: pos_less_divide_eq)
  from lower upper show ?thesis
    by (rule ceiling_unique [symmetric])
qed

lemma seven_by_three:
  assumes "length xs = 7"
  shows "map length (consecutive_batches 3 xs) = [3, 3, 1]"
proof -
  from assms have a: "xs \<noteq> []" "drop 3 xs \<noteq> []" "drop 3 (drop 3 xs) \<noteq> []"
    "drop 3 (drop 3 (drop 3 xs)) = []"
    by auto
  have "consecutive_batches 3 xs = take 3 xs # consecutive_batches 3 (drop 3 xs)"
    by (rule consecutive_batches_Cons) (simp_all add: a(1))
  also have "consecutive_batches 3 (drop 3 xs)
      = take 3 (drop 3 xs) # consecutive_batches 3 (drop 3 (drop 3 xs))"
    by (rule consecutive_batches_Cons) (simp_all only: a(2) zero_less_numeral not_False_eq_True)
  also have "consecutive_batches 3 (drop 3 (drop 3 xs))
      = take 3 (drop 3 (drop 3 xs)) # consecutive_batches 3 (drop 3 (drop 3 (drop 3 xs)))"
    by (rule consecutive_batches_Cons) (simp_all only: a(3) zero_less_numeral not_False_eq_True)
  finally have "consecutive_batches 3 xs
      = [take 3 xs, take 3 (drop 3 xs), take 3 (drop 3 (drop 3 xs))]"
    by (simp only: a(4) consecutive_batches_Nil)
  with assms show ?thesis by simp
qed

lemma run_batches_completes:
  assumes B: "BATCH_SIZE cfg = Num B" "0 < B" and n: "0 < MAX_CONCURRENT_CHECKS cfg"
  shows "\<exists>results L' w' segs.
      run_batches cfg exts sched urls w = Some (results, L', w')
      \<and> map url results = urls
      \<and> trace w' = trace w @ paced (of_int (DELAY_BETWEEN_REQUESTS cfg * 2)) segs
      \<and> map started_of segs = consecutive_batches (nat B) urls
      \<and> map (mset \<circ> finished_of) segs = map mset (consecutive_batches (nat B) urls)
      \<and> list_all (\<lambda>seg. batch_pacings seg = []) segs"
proof -
  have idle: "limit (new_limiter (MAX_CONCURRENT_CHECKS cfg) :: unit_of_work limiter)
        = MAX_CONCURRENT_CHECKS cfg"
    "running (new_limiter (MAX_CONCURRENT_CHECKS cfg) :: unit_of_work limiter) = 0"
    "queue (new_limiter (MAX_CONCURRENT_CHECKS cfg) :: unit_of_work limiter) = []"
    by (simp_all add: new_limiter_def)
  have run: "run_batches cfg exts sched urls w
      = batch_loop cfg exts sched urls B \<lceil>real (length urls) / real_of_int B\<rceil> 0
          ([], new_limiter (MAX_CONCURRENT_CHECKS cfg), w)"
    using B by (simp add: run_batches_def)
  from batch_loop_completes [OF B(2) n order_refl idle, of cfg exts sched urls "[]" w]
  show ?thesis
    unfolding run by auto
qed

lemma submit_blocked:
  assumes "limit (lim s) \<le> 0" "running (lim s) = 0" "active s = []"
  shows "limit (lim (foldl submit s vs)) = limit (lim s)
       \<and> running (lim (foldl submit s vs)) = 0
       \<and> active (foldl submit s vs) = []
       \<and> queue (lim (foldl submit s vs)) = queue (lim s) @ vs"
  using assms
proof (induction vs arbitrary: s)
  case Nil
  then show ?case by simp
next
  case (Cons v vs)
  from Cons.prems have sub: "submit s v = s\<lparr>lim := (lim s)\<lparr>queue := queue (lim s) @ [v]\<rparr>\<rparr>"
    by (simp add: submit_def run_def process_def begin_job_def)
  from Cons.prems have "limit (lim (submit s v)) \<le> 0" "running (lim (submit s v)) = 0"
    "active (submit s v) = []"
    unfolding sub by simp_all
  from Cons.IH [OF this] show ?case
    by (simp add: sub)
qed

lemma processUrlBatch_blocked:
  assumes "limit L \<le> 0" "running L = 0" "urls \<noteq> []"
  shows "processUrlBatch cfg exts sched urls startIndex (L, w) = None"
proof -
  define s0 where "s0 = \<lparr>lim = L, active = [], resolved = [], wld = w\<rparr>"
  from assms(1,2) have "limit (lim s0) \<le> 0" "running (lim s0) = 0" "active s0 = []"
    by (simp_all add: s0_def)
  from submit_blocked [OF this, of "enumerate 0 urls"] assms(3)
  have "active (foldl submit s0 (enumerate 0 urls)) = []"
    "queue (lim (foldl submit s0 (enumerate 0 urls))) \<noteq> []"
    by (simp_all add: enumerate_eq_zip)
  then have "drain cfg exts startIndex sched 0 (foldl submit s0 (enumerate 0 urls)) = None"
    by (subst drain.simps) simp
  then show ?thesis
    by (simp add: processUrlBatch_def s0_def)
qed

lemma run_batches_blocked:
  assumes B: "BATCH_SIZE cfg = Num B" "0 < B" and n: "MAX_CONCURRENT_CHECKS cfg \<le> 0"
    and urls: "urls \<noteq> []"
  shows "run_batches cfg exts sched urls w = None"
proof -
  let ?batches = "\<lceil>real (length urls) / real_of_int B\<rceil>"
  let ?L = "new_limiter (MAX_CONCURRENT_CHECKS cfg) :: unit_of_work limiter"
  from urls have "0 * B < int (length urls)" by simp
  then have go: "0 < ?batches"
    by (simp only: less_batches_iff [OF B(2)])
  have batch: "slice urls (0 * B) (min (0 * B + B) (int (length urls)))
      = take (nat B) (drop (nat (0 * B)) urls)"
    using B(2) by (intro slice_batch) simp_all
  from B(2) urls have "take (nat B) urls \<noteq> []" by simp
  with n have "processUrlBatch cfg exts (sched 0) (take (nat B) urls) 0 (?L, w) = None"
    by (intro processUrlBatch_blocked) (simp_all add: new_limiter_def)
  with go batch have "batch_loop cfg exts sched urls B ?batches 0 ([], ?L, w) = None"
    by (subst batch_loop.simps) (simp add: Let_def)
  with B show ?thesis
    by (simp add: run_batches_def)
qed

text \<open>
  Claim C1, amended. For every run whose tunables are finite numbers, with a positive
  batch size and a positive concurrency limit, whatever the checker does for each job and
  in whatever order the jobs settle, the batch loop completes and the outcome list holds
  exactly one outcome per entry of the URL list, in the order of the list; from main, with
  the sitemap reachable and at least one entry discovered, the list handed to the report
  has one outcome per entry of the discovered list, none omitted and none more than once
  (an address that the collector returns twice has an outcome for each of its entries).
  With a positive batch size and a limit that is not positive no job is ever started and
  the run never produces an outcome list.
\<close>

theorem one_outcome_per_url:
  assumes "BATCH_SIZE cfg = Num B" and "0 < B"
  shows "(0 < MAX_CONCURRENT_CHECKS cfg \<longrightarrow>
            (\<exists>results L' w'. run_batches cfg exts sched urls w = Some (results, L', w')
                \<and> map url results = urls)
          \<and> (head_ok \<and> getAllUrls net (Str sitemapUrl) \<noteq> [] \<longrightarrow>
                (\<exists>results w'. main cfg exts net close sched head_ok sitemapUrl w
                     = Completed results w'
                   \<and> map url results = map address_of (getAllUrls net (Str sitemapUrl))
                   \<and> length results = length (getAllUrls net (Str sitemapUrl)))))
       \<and> (MAX_CONCURRENT_CHECKS cfg \<le> 0 \<and> urls \<noteq> [] \<longrightarrow>
            run_batches cfg exts sched urls w = None)"
proof (intro conjI impI)
  assume n: "0 < MAX_CONCURRENT_CHECKS cfg"
  from run_batches_completes [OF assms n, of exts sched urls w]
  show "\<exists>results L' w'. run_batches cfg exts sched urls w = Some (results, L', w')
            \<and> map url results = urls"
    by blast
next
  assume n: "0 < MAX_CONCURRENT_CHECKS cfg"
    and a: "head_ok \<and> getAllUrls net (Str sitemapUrl) \<noteq> []"
  let ?urls = "map address_of (getAllUrls net (Str sitemapUrl))"
  from run_batches_completes [OF assms n, of exts sched ?urls w]
  obtain results L' w' where r:
    "run_batches cfg exts sched ?urls w = Some (results, L', w')"
    "map url results = ?urls"
    by blast
  from r(2) have "length results = length ?urls"
    by (metis length_map)
  then have len: "length results = length (getAllUrls net (Str sitemapUrl))"
    by simp
  from a r(1) have "main cfg exts net close sched head_ok sitemapUrl w
      = Completed results (cleanup close w')"
    by (simp add: main_def Let_def)
  with r(2) len show "\<exists>results w'. main cfg exts net close sched head_ok sitemapUrl w
                     = Completed results w'
               \<and> map url results = map address_of (getAllUrls net (Str sitemapUrl))
               \<and> length results = length (getAllUrls net (Str sitemapUrl))"
    by blast
next
  assume "MAX_CONCURRENT_CHECKS cfg \<le> 0 \<and> urls \<noteq> []"
  then show "run_batches cfg exts sched urls w = None"
    using run_batches_blocked [OF assms] by blast
qed

lemma getAllUrls_net_ok:
  "getAllUrls net_ok (Str ''https://site/sitemap_index.xml'')
     = [Str ''https://site/1'', Str ''https://site/2'', Str ''https://site/3'',
        Str ''https://site/4'', Str ''https://site/5'']"
proof -
  have f: "fetchXML (net_ok k u) = Some (if k = 0 then doc_index else if k = 1 then doc_a else doc_b)"
    for k u
    by (simp add: fetchXML_def net_ok_def)
  show ?thesis
    by (simp add: getAllUrls_def f scenario_docs set_add_def)
qed

lemma CONFIG_negative_batch:
  "CONFIG env_negative_batch = \<lparr>MAX_CONCURRENT_CHECKS = 1, BATCH_SIZE = Num (- 3),
     DELAY_BETWEEN_REQUESTS = 5000, MAX_RETRIES = 3, INITIAL_RETRY_DELAY = 5000,
     RETRY_MULTIPLIER = 2\<rparr>"
  by (simp add: CONFIG_def env_negative_batch_def no_env_def or_default_def parsed_or_def)

lemma CONFIG_infinite_batch:
  "CONFIG env_infinite_batch = \<lparr>MAX_CONCURRENT_CHECKS = 1, BATCH_SIZE = PlusInfinity,
     DELAY_BETWEEN_REQUESTS = 5000, MAX_RETRIES = 3, INITIAL_RETRY_DELAY = 5000,
     RETRY_MULTIPLIER = 2\<rparr>"
  by (simp add: CONFIG_def env_infinite_batch_def no_env_def or_default_def parsed_or_def)

lemma run_batches_negative:
  "run_batches (CONFIG env_negative_batch) exts sched (u # us) w
     = Some ([], new_limiter 1, w)"
proof -
  have "\<lceil>real (length (u # us)) / real_of_int (- 3)\<rceil> \<le> 0"
    by (simp add: ceiling_le_iff divide_nonneg_pos)
  then show ?thesis
    by (simp add: run_batches_def CONFIG_negative_batch batch_loop.simps)
qed

lemma run_batches_infinite:
  "run_batches (CONFIG env_infinite_batch) exts sched urls w = Some ([], new_limiter 1, w)"
  by (simp add: run_batches_def CONFIG_infinite_batch)

text \<open>
  Claim C1, as stated, fails: a negative \<open>PA11Y_BATCH_SIZE\<close> is taken as it is, the number
  of batches is then negative and the loop body never runs; and a \<open>PA11Y_BATCH_SIZE\<close> too
  long for a double is parsed to Infinity, which is taken as it is too, and the number of
  batches is 0. In both runs five addresses are discovered and the run completes with an
  empty outcome list.
\<close>

theorem one_outcome_per_url_counterexample:
  "main (CONFIG env_negative_batch) (\<lambda>g. ext_ok) net_ok close_ok first_settles True
       ''https://site/sitemap_index.xml'' world0 = Completed [] world0
   \<and> main (CONFIG env_infinite_batch) (\<lambda>g. ext_ok) net_ok close_ok first_settles True
       ''https://site/sitemap_index.xml'' world0 = Completed [] world0
   \<and> length (getAllUrls net_ok (Str ''https://site/sitemap_index.xml'')) = 5"
  by (simp add: main_def getAllUrls_net_ok run_batches_negative run_batches_infinite)
    (simp add: cleanup_def world0_def)

text \<open>The defaults, five discovered addresses, every check failing with timeouts.\<close>

theorem one_outcome_per_url_witness:
  "BATCH_SIZE (CONFIG no_env) = Num 3 \<and> 0 < MAX_CONCURRENT_CHECKS (CONFIG no_env)
   \<and> (\<exists>results w'. main (CONFIG no_env) (\<lambda>g. ext_timeout) net_ok close_ok first_settles True
          ''https://site/sitemap_index.xml'' world0 = Completed results w'
        \<and> map url results = [''https://site/1'', ''https://site/2'', ''https://site/3'',
             ''https://site/4'', ''https://site/5''])"
proof -
  have c: "BATCH_SIZE (CONFIG no_env) = Num 3" "0 < (3::int)"
    "0 < MAX_CONCURRENT_CHECKS (CONFIG no_env)"
    by (simp_all add: CONFIG_no_env)
  have u: "True \<and> getAllUrls net_ok (Str ''https://site/sitemap_index.xml'') \<noteq> []"
    by (simp add: getAllUrls_net_ok)
  from one_outcome_per_url [OF c(1,2), of "\<lambda>g. ext_timeout" first_settles "[]" world0 True
      net_ok "''https://site/sitemap_index.xml''" close_ok] c(3) u
  have "\<exists>results w'. main (CONFIG no_env) (\<lambda>g. ext_timeout) net_ok close_ok first_settles True
          ''https://site/sitemap_index.xml'' world0 = Completed results w'
        \<and> map url results
            = map address_of (getAllUrls net_ok (Str ''https://site/sitemap_index.xml''))"
    by blast
  with c show ?thesis
    by (simp add: getAllUrls_net_ok)
qed

text \<open>
  Claim C9, amended. For every URL list of length \<open>n\<close>, every finite positive batch size
  \<open>B\<close> and every finite positive concurrency limit (the other tunables finite too), the run
  completes and its trace is the traces of the batches one after the other, with a delay
  of \<open>2 \<times> DELAY_BETWEEN_REQUESTS\<close> between consecutive batches, none after the last and none
  inside a batch. The jobs started in the \<open>k\<close>-th part are, in order, the addresses of the
  \<open>k\<close>-th consecutive batch, and the jobs that end in it are exactly those: every job of a
  batch completes before the next batch starts. The batches partition the list; there are
  \<open>ceil(n/B)\<close> of them, each non-empty and of size at most \<open>B\<close>, all but the last of size
  \<open>B\<close> (sizes 3, 3, 1 for 7 and 3).
\<close>

theorem batches_in_sequence:
  assumes "BATCH_SIZE cfg = Num B" and "0 < B" and "0 < MAX_CONCURRENT_CHECKS cfg"
  shows "\<exists>results L' w' segs.
      run_batches cfg exts sched urls w = Some (results, L', w')
      \<and> trace w' = trace w @ paced (of_int (2 * DELAY_BETWEEN_REQUESTS cfg)) segs
      \<and> map started_of segs = consecutive_batches (nat B) urls
      \<and> map (mset \<circ> finished_of) segs = map mset (consecutive_batches (nat B) urls)
      \<and> list_all (\<lambda>seg. batch_pacings seg = []) segs
      \<and> concat (consecutive_batches (nat B) urls) = urls
      \<and> int (length (consecutive_batches (nat B) urls))
           = \<lceil>real (length urls) / real_of_int B\<rceil>
      \<and> (\<forall>b \<in> set (consecutive_batches (nat B) urls). 0 < length b \<and> length b \<le> nat B)
      \<and> (\<forall>b \<in> set (butlast (consecutive_batches (nat B) urls)). length b = nat B)
      \<and> (length urls = 7 \<and> B = 3 \<longrightarrow>
            map length (consecutive_batches (nat B) urls) = [3, 3, 1])"
proof -
  from assms(2) have b: "0 < nat B" by simp
  have three: "nat 3 = (3::nat)" by simp
  from run_batches_completes [OF assms, of exts sched urls w]
  obtain results L' w' segs where r:
    "run_batches cfg exts sched urls w = Some (results, L', w')"
    "trace w' = trace w @ paced (of_int (DELAY_BETWEEN_REQUESTS cfg * 2)) segs"
    "map started_of segs = consecutive_batches (nat B) urls"
    "map (mset \<circ> finished_of) segs = map mset (consecutive_batches (nat B) urls)"
    "list_all (\<lambda>seg. batch_pacings seg = []) segs"
    by blast
  have p: "DELAY_BETWEEN_REQUESTS cfg * 2 = 2 * DELAY_BETWEEN_REQUESTS cfg" by simp
  have seven: "length urls = 7 \<and> B = 3 \<longrightarrow>
      map length (consecutive_batches (nat B) urls) = [3, 3, 1]"
    using seven_by_three [of urls] by (simp add: three)
  have sizes: "\<forall>b \<in> set (consecutive_batches (nat B) urls). 0 < length b \<and> length b \<le> nat B"
    using sizes_consecutive_batches [OF b, of _ urls] by blast
  have full: "\<forall>b \<in> set (butlast (consecutive_batches (nat B) urls)). length b = nat B"
    using full_consecutive_batches [OF b, of _ urls] by blast
  from r(1) r(2) [unfolded p] r(3-5) concat_consecutive_batches [OF b, of urls]
    length_consecutive_batches [OF assms(2), of urls] sizes full seven
  show ?thesis
    by (intro exI [of _ results] exI [of _ L'] exI [of _ w'] exI [of _ segs] conjI) assumption+
qed

text \<open>
  Claim C9, as stated, fails. With the batch size \<open>-3\<close> (a negative \<open>PA11Y_BATCH_SIZE\<close> is
  taken as it is) and 7 addresses, \<open>ceil(7 / -3)\<close> is \<open>-2\<close>; with the batch size Infinity
  (what parseInt makes of a \<open>PA11Y_BATCH_SIZE\<close> too long for a double) the quotient is 0.
  In both runs no batch is processed, no job starts and no delay is inserted.
\<close>

theorem batches_in_sequence_counterexample:
  "BATCH_SIZE (CONFIG env_negative_batch) = Num (- 3)
   \<and> \<lceil>real (length seven_urls) / real_of_int (- 3)\<rceil> = - 2
   \<and> run_batches (CONFIG env_negative_batch) (\<lambda>g. ext_ok) first_settles seven_urls world0
       = Some ([], new_limiter 1, world0)
   \<and> BATCH_SIZE (CONFIG env_infinite_batch) = PlusInfinity
   \<and> run_batches (CONFIG env_infinite_batch) (\<lambda>g. ext_ok) first_settles seven_urls world0
       = Some ([], new_limiter 1, world0)"
proof -
  have "\<lceil>real (length seven_urls) / real_of_int (- 3)\<rceil> = \<lceil>- (7 / 3 :: real)\<rceil>"
    by (simp add: seven_urls_def)
  also have "\<dots> = - 2"
    by (rule ceiling_unique) simp_all
  finally have "\<lceil>real (length seven_urls) / real_of_int (- 3)\<rceil> = - 2" .
  moreover have "run_batches (CONFIG env_negative_batch) (\<lambda>g. ext_ok) first_settles seven_urls
      world0 = Some ([], new_limiter 1, world0)"
    by (simp add: seven_urls_def run_batches_negative)
  moreover have "BATCH_SIZE (CONFIG env_negative_batch) = Num (- 3)"
    "BATCH_SIZE (CONFIG env_infinite_batch) = PlusInfinity"
    by (simp_all add: CONFIG_negative_batch CONFIG_infinite_batch)
  ultimately show ?thesis
    by (simp only: run_batches_infinite simp_thms)
qed

text \<open>The defaults (batches of 3, a pause of 10000 ms) on seven addresses.\<close>

theorem batches_in_sequence_witness:
  "BATCH_SIZE (CONFIG no_env) = Num 3 \<and> 0 < MAX_CONCURRENT_CHECKS (CONFIG no_env)
   \<and> (\<exists>results L' w' segs.
         run_batches (CONFIG no_env) (\<lambda>g. ext_ok) first_settles seven_urls world0
           = Some (results, L', w')
       \<and> trace w' = trace world0 @ paced 10000 segs
       \<and> map started_of segs
           = [[''https://site/1'', ''https://site/2'', ''https://site/3''],
              [''https://site/4'', ''https://site/5'', ''https://site/6''],
              [''https://site/7'']])"
proof -
  have c: "BATCH_SIZE (CONFIG no_env) = Num 3" "0 < (3::int)"
    "0 < MAX_CONCURRENT_CHECKS (CONFIG no_env)"
    by (simp_all add: CONFIG_no_env)
  have cb: "consecutive_batches (nat 3) seven_urls
      = [[''https://site/1'', ''https://site/2'', ''https://site/3''],
         [''https://site/4'', ''https://site/5'', ''https://site/6''],
         [''https://site/7'']]"
    by (simp add: seven_urls_def consecutive_batches.simps)
  have p: "real_of_int (2 * DELAY_BETWEEN_REQUESTS (CONFIG no_env)) = 10000"
    by (simp add: CONFIG_no_env)
  from batches_in_sequence [OF c, of "\<lambda>g. ext_ok" first_settles seven_urls world0]
  obtain results L' w' segs where r:
    "run_batches (CONFIG no_env) (\<lambda>g. ext_ok) first_settles seven_urls world0
       = Some (results, L', w')"
    "trace w' = trace world0 @ paced (of_int (2 * DELAY_BETWEEN_REQUESTS (CONFIG no_env))) segs"
    "map started_of segs = consecutive_batches (nat 3) seven_urls"
    by blast
  from r(1) r(2) [unfolded p] r(3) [unfolded cb]
  have "\<exists>results L' w' segs.
         run_batches (CONFIG no_env) (\<lambda>g. ext_ok) first_settles seven_urls world0
           = Some (results, L', w')
       \<and> trace w' = trace world0 @ paced 10000 segs
       \<and> map started_of segs
           = [[''https://site/1'', ''https://site/2'', ''https://site/3''],
              [''https://site/4'', ''https://site/5'', ''https://site/6''],
              [''https://site/7'']]"
    by (intro exI [of _ results] exI [of _ L'] exI [of _ w'] exI [of _ segs] conjI) assumption+
  with c show ?thesis by blast
qed

end
